theory Spec2Isabelle
  imports Main "HOL-Library.Word"
begin

unbundle bit_operations_syntax

section \<open>rerun: the data of \<open>main.go\<close>\<close>

text \<open>
  \<open>rerun\<close> watches the directory tree below the current directory and
  re-executes a shell command on every filesystem event. The program is one
  Go file with one struct, \<open>Rerun\<close>, its methods \<open>Start\<close>, \<open>Stop\<close>,
  \<open>WatchDir\<close>, \<open>UnwatchDir\<close>, \<open>Events\<close>, \<open>cleanup\<close>, the constructor
  \<open>NewRerun\<close> and \<open>main\<close>.

  The program runs several goroutines: the controller (\<open>main\<close>), the signal
  goroutine started by \<open>NewRerun\<close>, and one goroutine per \<open>Start\<close>. The
  embedding is a transition system: every goroutine has a program counter
  whose values are the statements of \<open>main.go\<close> at which it can be
  pre-empted, and a schedule (a list of actions) picks which goroutine, or
  which part of the environment, moves next. Shared memory is read and
  written one statement at a time (sequential consistency); \<open>exiting\<close> is
  read and written without a lock, as in the source.

  The environment is what the program cannot decide: the events that the
  watcher delivers and what \<open>os.Stat\<close> answers for them, the errors that
  the watcher reports, the signal, the paths that the watcher refuses to
  register or leaves unrecorded, the watches that it drops by itself, the
  moment at which \<open>os/exec\<close> kills a process whose context is done, and
  what the command's processes do. The parsing of the arguments at the head of \<open>main\<close> is not part of
  the embedding; it ends with the command string. The deferred
  \<open>run.cleanup()\<close> of \<open>main\<close> never runs, since the loop has no exit and
  \<open>os.Exit\<close> runs no deferred call.
\<close>

subsection \<open>Paths, file information, errors\<close>

text \<open>
  A path is the list of its components: \<open>filepath.Join p name\<close> is
  \<open>p @ [name]\<close>, and \<open>FileInfo.Name()\<close>, the base name, is the last
  component.
\<close>

type_synonym path = "string list"

definition Base :: "path \<Rightarrow> string" where
  "Base p = (if p = [] then ''.'' else last p)"

record FileInfo =
  fi_Name :: string
  fi_IsDir :: bool

text \<open>Go's \<open>error\<close> values that occur; \<open>nil\<close> is \<open>None\<close>. A panic
  inside a walk function unwinds \<open>filepath.Walk\<close> and its caller; it
  travels through the walk as \<open>NilFileInfo\<close>, which is no value of the
  program, together with the status \<open>Panicked\<close>.\<close>

datatype error =
    SkipDir
  | AddError path
  | RemoveError path
  | LstatError path
  | ReadDirError path
  | NilFileInfo

text \<open>
  \<open>fsnotify.Op\<close> is a \<open>uint32\<close> bit mask:
  \<open>Create = 1 << iota\<close>, then \<open>Write\<close>, \<open>Remove\<close>, \<open>Rename\<close>, \<open>Chmod\<close>.
\<close>

type_synonym Op = "32 word"

definition Create :: Op where "Create = 1"

definition Write :: Op where "Write = 2"

definition Remove :: Op where "Remove = 4"

definition Rename :: Op where "Rename = 8"

definition Chmod :: Op where "Chmod = 16"

record Event =
  ev_Name :: path
  ev_Op :: Op

subsection \<open>The log\<close>

text \<open>
  The calls of the logger that the properties below refer to, each with the
  goroutine that makes it.
\<close>

datatype thread = T_main | T_signal | T_worker nat

datatype logmsg =
    CalledStart
  | StartedGoroutine
  | CommandRunning string
  | CommandStopped
  | CalledStop
  | WaitingWaitgroup
  | IgnoringGit
  | UnableToWatch path
  | AddedDir path
  | RemovedDir path
  | CalledCleanup
  | StoppingWatcher
  | ReceivedEvent Event
  | StatError path

subsection \<open>Goroutines and processes\<close>

text \<open>
  The goroutine of \<open>Start\<close> (lines 42-62) is at one of three places: spawned
  and not yet at \<open>cmd.Start()\<close>; in the \<open>for/select\<close> waiting for
  \<open>ctx.Done()\<close>; returned (its deferred \<open>r.Done()\<close> has run).

  The operating-system process of its command has not been started, is
  alive, or has exited. \<open>P_Reaped\<close> is the state after \<open>cmd.Wait()\<close>;
  \<open>main.go\<close> never calls it, so no transition below produces it.
  \<open>w_kids\<close> counts the live processes that the shell has forked.
\<close>

datatype wpc = W_Spawned | W_Waiting | W_Returned

datatype pstate = P_None | P_Alive | P_Exited | P_Reaped

record worker =
  w_ctx :: nat
  w_argv :: "string list"
  w_pc :: wpc
  w_proc :: pstate
  w_kids :: nat

text \<open>The controller: the statements of \<open>main\<close> from line 178 on, with the
  bodies of \<open>Start\<close> and \<open>Stop\<close> inlined. The local \<open>ctx\<close> of \<open>Start\<close>
  and the received \<open>event\<close> are part of the program counter. The second
  argument of \<open>M_Create\<close> is what \<open>os.Stat(event.Name)\<close> will answer:
  \<open>None\<close> an error, \<open>Some d\<close> a \<open>FileInfo\<close> with \<open>IsDir() = d\<close>.\<close>

datatype mpc =
    M_Start_ctx
  | M_Start_chk nat
  | M_Start_add nat
  | M_Start_go nat
  | M_Loop
  | M_Create Event "bool option"
  | M_Remove Event
  | M_Stop_cancel
  | M_Stop_wait

text \<open>The signal goroutine of \<open>NewRerun\<close> (lines 134-138) with \<open>cleanup\<close>
  and \<open>Stop\<close> inlined. At \<open>H_Idle\<close> it waits on its channel.\<close>

datatype hpc = H_Idle | H_Cleanup | H_Stop_cancel | H_Stop_wait | H_Close | H_Exit

text \<open>The whole process runs, has died of a panic, or has exited with a
  status.\<close>

datatype status = Running | Panicked | Exited int

text \<open>The state: the fields of \<open>Rerun\<close> (the \<open>WaitGroup\<close>'s counter,
  \<open>Command\<close>, \<open>exiting\<close>, \<open>cancel\<close>, and of the watcher its set of
  registered paths, the paths it refuses, the paths it accepts without
  recording them, whether it is closed, and the error that its goroutine is
  blocked sending on the \<open>Errors\<close> channel); the contexts made so far and
  those that are done; the executions; the program counters; the log.\<close>

record state =
  wg :: int
  Command :: string
  exiting :: bool
  cancel :: "nat option"
  watched :: "path set"
  add_fails :: "path set"
  add_ignores :: "path set"
  closed :: bool
  err_pending :: "string option"
  next_ctx :: nat
  ctx_done :: "nat set"
  workers :: "worker list"
  m_pc :: mpc
  h_pc :: hpc
  status :: status
  log :: "(thread \<times> logmsg) list"

definition say :: "thread \<Rightarrow> logmsg \<Rightarrow> state \<Rightarrow> state" where
  "say t m s = s\<lparr>log := log s @ [(t, m)]\<rparr>"

section \<open>The watch set\<close>

text \<open>
  \<open>watched\<close> is the set of paths that the watcher has on record
  (\<open>WatchList\<close>). \<open>fsnotify.Watcher.Add\<close> fails on a closed watcher; on
  which paths it fails otherwise is the environment's choice, \<open>add_fails\<close>.
  A result \<open>nil\<close> does not mean that the path is on record afterwards:
  for a directory that the watcher already watches under another name (a
  watched directory that has been renamed) it answers \<open>nil\<close> and records
  nothing; these paths are the environment's choice too, \<open>add_ignores\<close>.
  Both sets are fixed for a run. \<open>Remove\<close> fails on a path that is not
  on record.
\<close>

definition watcher_Add :: "path \<Rightarrow> state \<Rightarrow> error option \<times> state" where
  "watcher_Add p s =
     (if closed s \<or> p \<in> add_fails s then (Some (AddError p), s)
      else if p \<in> add_ignores s then (None, s)
      else (None, s\<lparr>watched := insert p (watched s)\<rparr>))"

definition watcher_Remove :: "path \<Rightarrow> state \<Rightarrow> error option \<times> state" where
  "watcher_Remove p s =
     (if p \<in> watched s then (None, s\<lparr>watched := watched s - {p}\<rparr>)
      else (Some (RemoveError p), s))"

text \<open>\<open>WatchDir\<close>, lines 76-92. The result is the returned error and the
  state. The argument \<open>f\<close> is an interface value and may be \<open>nil\<close>
  (\<open>None\<close>); line 77 calls \<open>f.IsDir()\<close> before anything else, which
  panics on \<open>nil\<close>. The argument \<open>err\<close> is returned as it came for a
  path that is no directory and overwritten by the result of
  \<open>watcher.Add\<close> otherwise.\<close>

definition WatchDir :: "path \<Rightarrow> FileInfo option \<Rightarrow> error option \<Rightarrow> state \<Rightarrow> error option \<times> state" where
  "WatchDir p f err s =
     (case f of
        None \<Rightarrow> (Some NilFileInfo, s\<lparr>status := Panicked\<rparr>)
      | Some fi \<Rightarrow>
          (if fi_IsDir fi then
             (if fi_Name fi = ''.git'' then (Some SkipDir, say T_main IgnoringGit s)
              else (case watcher_Add p s of (err', s') \<Rightarrow>
                (if err' \<noteq> None then (err', say T_main (UnableToWatch p) s')
                 else (err', say T_main (AddedDir p) s'))))
           else (err, s)))"

text \<open>\<open>UnwatchDir\<close>, lines 95-100.\<close>

definition UnwatchDir :: "path \<Rightarrow> state \<Rightarrow> state" where
  "UnwatchDir p s =
     (case watcher_Remove p s of (err, s') \<Rightarrow>
        (if err = None then say T_main (RemovedDir p) s' else s'))"

subsection \<open>\<open>filepath.Walk\<close>\<close>

text \<open>
  The directory tree at start-up: files, directories with their entries in
  the order of their names, directories that cannot be read, and entries on
  which \<open>Lstat\<close> fails. \<open>filepath.Walk root fn\<close> calls \<open>fn\<close> on the root
  and, for a directory, on its entries in that order, descending into
  directories. For an entry on which \<open>Lstat\<close> fails it calls \<open>fn\<close> with
  a \<open>nil\<close> \<open>FileInfo\<close> and the error; for a directory that cannot be
  read it calls \<open>fn\<close> with the error of the reading and does not descend.
  A result \<open>SkipDir\<close> of \<open>fn\<close> on a directory skips that directory; on
  a file it skips the rest of the containing directory; any other error
  ends the whole walk and is returned.
\<close>

datatype fsnode = File string | Dir string "fsnode list" | Unreadable string | Gone string

fun node_name :: "fsnode \<Rightarrow> string" where
  "node_name (File n) = n"
| "node_name (Dir n kids) = n"
| "node_name (Unreadable n) = n"
| "node_name (Gone n) = n"

fun node_isdir :: "fsnode \<Rightarrow> bool" where
  "node_isdir (File n) = False"
| "node_isdir (Dir n kids) = True"
| "node_isdir (Unreadable n) = True"
| "node_isdir (Gone n) = False"

fun lstat :: "fsnode \<Rightarrow> FileInfo option" where
  "lstat (Gone n) = None"
| "lstat k = Some \<lparr>fi_Name = node_name k, fi_IsDir = node_isdir k\<rparr>"

fun walk :: "(path \<Rightarrow> FileInfo option \<Rightarrow> error option \<Rightarrow> 'st \<Rightarrow> error option \<times> 'st)
              \<Rightarrow> path \<Rightarrow> fsnode \<Rightarrow> 'st \<Rightarrow> error option \<times> 'st"
  and walk_names :: "(path \<Rightarrow> FileInfo option \<Rightarrow> error option \<Rightarrow> 'st \<Rightarrow> error option \<times> 'st)
              \<Rightarrow> path \<Rightarrow> fsnode list \<Rightarrow> 'st \<Rightarrow> error option \<times> 'st" where
  "walk fn p (File n) st = fn p (lstat (File n)) None st"
| "walk fn p (Dir n kids) st =
     (case fn p (lstat (Dir n kids)) None st of (err1, st1) \<Rightarrow>
        (if err1 \<noteq> None then (err1, st1) else walk_names fn p kids st1))"
| "walk fn p (Unreadable n) st = fn p (lstat (Unreadable n)) (Some (ReadDirError p)) st"
| "walk fn p (Gone n) st = fn p None (Some (LstatError p)) st"
| "walk_names fn p [] st = (None, st)"
| "walk_names fn p (k # ks) st =
     (case walk fn (p @ [node_name k]) k st of (err, st') \<Rightarrow>
        (if err \<noteq> None \<and> ((lstat k \<noteq> None \<and> \<not> node_isdir k) \<or> err \<noteq> Some SkipDir)
         then (err, st')
         else walk_names fn p ks st'))"

definition Walk :: "path \<Rightarrow> fsnode
     \<Rightarrow> (path \<Rightarrow> FileInfo option \<Rightarrow> error option \<Rightarrow> 'st \<Rightarrow> error option \<times> 'st)
     \<Rightarrow> 'st \<Rightarrow> error option \<times> 'st" where
  "Walk root t fn st =
     (case walk fn root t st of (err, st') \<Rightarrow>
        (if err = Some SkipDir then (None, st') else (err, st')))"

section \<open>Start-up: \<open>NewRerun\<close>\<close>

text \<open>
  What \<open>NewRerun\<close> finds: whether \<open>fsnotify.NewWatcher\<close> fails, the
  current directory (or the failure of \<open>os.Getwd\<close>), the tree below it,
  the paths that the watcher will refuse and those that it will accept
  without recording them.
\<close>

record env =
  env_watcher_err :: bool
  env_cwd :: "path option"
  env_tree :: fsnode
  env_add_fails :: "path set"
  env_add_ignores :: "path set"

definition fresh :: "env \<Rightarrow> string \<Rightarrow> state" where
  "fresh e command =
     \<lparr>wg = 0, Command = command, exiting = False, cancel = None,
      watched = {}, add_fails = env_add_fails e, add_ignores = env_add_ignores e,
      closed = False, err_pending = None,
      next_ctx = 0, ctx_done = {}, workers = [],
      m_pc = M_Start_ctx, h_pc = H_Idle, status = Running, log = []\<rparr>"

text \<open>\<open>NewRerun\<close>, lines 108-141. \<open>log.Fatalf\<close> ends the process with
  status 1. The result of \<open>filepath.Walk\<close> is assigned to \<open>err\<close> and never
  read; a panic of \<open>WatchDir\<close> during the walk is not recovered and ends
  the process. The state returned otherwise has the signal goroutine
  waiting on its channel and the controller about to call \<open>run.Start()\<close>
  (line 178); \<open>cancel\<close> is still \<open>nil\<close>.\<close>

definition NewRerun :: "env \<Rightarrow> string \<Rightarrow> state" where
  "NewRerun e command =
     (if env_watcher_err e then (fresh e command)\<lparr>status := Exited 1\<rparr>
      else (case env_cwd e of
              None \<Rightarrow> (fresh e command)\<lparr>status := Exited 1\<rparr>
            | Some curDir \<Rightarrow> snd (Walk curDir (env_tree e) WatchDir (fresh e command))))"

section \<open>The process runner: \<open>Start\<close> and \<open>Stop\<close>\<close>

text \<open>\<open>context.WithCancel\<close> makes a new context; its cancel function is
  identified with the context's number. Calling a cancel function puts the
  number into \<open>ctx_done\<close>; calling it again changes nothing.\<close>

definition WithCancel :: "state \<Rightarrow> nat \<times> state" where
  "WithCancel s = (next_ctx s, s\<lparr>next_ctx := Suc (next_ctx s)\<rparr>)"

text \<open>\<open>sync.WaitGroup.Add\<close> panics when the counter would become negative;
  \<open>Done\<close> is \<open>Add(-1)\<close>.\<close>

definition wg_Add :: "int \<Rightarrow> state \<Rightarrow> state" where
  "wg_Add d s = (if wg s + d < 0 then s\<lparr>status := Panicked\<rparr> else s\<lparr>wg := wg s + d\<rparr>)"

text \<open>Lines 32-36 of \<open>Start\<close>: the log line, the new context, the
  assignment to \<open>r.cancel\<close>. They come before the test of \<open>r.exiting\<close>.\<close>

definition Start_scope :: "state \<Rightarrow> nat \<times> state" where
  "Start_scope s =
     (case WithCancel (say T_main CalledStart s) of (c, s') \<Rightarrow> (c, s'\<lparr>cancel := Some c\<rparr>))"

text \<open>Line 42, \<open>go func() {...}()\<close>: a new goroutine whose command is
  \<open>sh -c r.Command\<close> under the context \<open>c\<close>.\<close>

definition go_worker :: "nat \<Rightarrow> state \<Rightarrow> state" where
  "go_worker c s =
     s\<lparr>workers := workers s @
        [\<lparr>w_ctx = c, w_argv = [''sh'', ''-c'', Command s], w_pc = W_Spawned,
          w_proc = P_None, w_kids = 0\<rparr>]\<rparr>"

text \<open>\<open>Start\<close>, lines 31-64, run without interruption.\<close>

definition Start :: "state \<Rightarrow> state" where
  "Start s =
     (case Start_scope s of (c, s1) \<Rightarrow>
        (if \<not> exiting s1 then go_worker c (wg_Add 1 s1) else s1))"

text \<open>Lines 68-71 of \<open>Stop\<close>: \<open>r.cancel()\<close> is a call through a function
  value and panics when the value is \<open>nil\<close>.\<close>

definition Stop_cancel :: "thread \<Rightarrow> state \<Rightarrow> state" where
  "Stop_cancel t s =
     (case cancel s of
        None \<Rightarrow> (say t CalledStop s)\<lparr>status := Panicked\<rparr>
      | Some c \<Rightarrow> say t WaitingWaitgroup
                   ((say t CalledStop s)\<lparr>ctx_done := insert c (ctx_done s)\<rparr>))"

text \<open>The goroutine of \<open>Start\<close>, lines 43-61. \<open>cmd.Start()\<close> on a context
  that is already done starts no process; otherwise it starts the shell
  (its error result is dropped by the source). The goroutine leaves the
  \<open>select\<close> when its context is done and returns at once: nothing waits for
  the process.\<close>

definition worker_step :: "nat \<Rightarrow> state \<Rightarrow> state" where
  "worker_step i s =
     (if i < length (workers s) then
        (let w = workers s ! i in
         case w_pc w of
           W_Spawned \<Rightarrow>
             say (T_worker i) (CommandRunning (Command s))
               ((say (T_worker i) StartedGoroutine s)
                 \<lparr>workers := (workers s)[i := w\<lparr>w_pc := W_Waiting,
                     w_proc := (if w_ctx w \<in> ctx_done s then P_None else P_Alive)\<rparr>]\<rparr>)
         | W_Waiting \<Rightarrow>
             (if w_ctx w \<in> ctx_done s then
                wg_Add (- 1)
                  ((say (T_worker i) CommandStopped s)
                     \<lparr>workers := (workers s)[i := w\<lparr>w_pc := W_Returned\<rparr>]\<rparr>)
              else s)
         | W_Returned \<Rightarrow> s)
      else s)"

text \<open>What \<open>os/exec\<close> does for a command made by \<open>exec.CommandContext\<close>
  with no \<open>Cancel\<close> function and no \<open>SysProcAttr\<close>, as \<open>main.go\<close> makes it:
  once the context is done it calls \<open>Process.Kill\<close>, which signals the
  started process and no other. This happens in a goroutine of the library,
  at a moment of its own.\<close>

definition exec_kill :: "nat \<Rightarrow> state \<Rightarrow> state" where
  "exec_kill i s =
     (if i < length (workers s) \<and> w_proc (workers s ! i) = P_Alive
         \<and> w_ctx (workers s ! i) \<in> ctx_done s
      then s\<lparr>workers := (workers s)[i := (workers s ! i)\<lparr>w_proc := P_Exited\<rparr>]\<rparr>
      else s)"

text \<open>What the command does by itself: the shell exits, forks a
  subprocess, or a subprocess exits.\<close>

definition proc_exit :: "nat \<Rightarrow> state \<Rightarrow> state" where
  "proc_exit i s =
     (if i < length (workers s) \<and> w_proc (workers s ! i) = P_Alive
      then s\<lparr>workers := (workers s)[i := (workers s ! i)\<lparr>w_proc := P_Exited\<rparr>]\<rparr>
      else s)"

definition proc_fork :: "nat \<Rightarrow> state \<Rightarrow> state" where
  "proc_fork i s =
     (if i < length (workers s) \<and> w_proc (workers s ! i) = P_Alive
      then s\<lparr>workers := (workers s)[i := (workers s ! i)\<lparr>w_kids := Suc (w_kids (workers s ! i))\<rparr>]\<rparr>
      else s)"

definition kid_exit :: "nat \<Rightarrow> state \<Rightarrow> state" where
  "kid_exit i s =
     (if i < length (workers s) \<and> 0 < w_kids (workers s ! i)
      then s\<lparr>workers := (workers s)[i := (workers s ! i)\<lparr>w_kids := w_kids (workers s ! i) - 1\<rparr>]\<rparr>
      else s)"

section \<open>The controller and the signal goroutine\<close>

text \<open>Lines 188-195 and 198-200 of the loop body.\<close>

definition on_create :: "Event \<Rightarrow> bool option \<Rightarrow> state \<Rightarrow> state" where
  "on_create ev st s =
     (if ev_Op ev AND Create = Create then
        (case st of
           None \<Rightarrow> say T_main (StatError (ev_Name ev)) s
         | Some d \<Rightarrow>
             snd (WatchDir (ev_Name ev)
                    (Some \<lparr>fi_Name = Base (ev_Name ev), fi_IsDir = d\<rparr>) None s))
      else s)"

definition on_remove :: "Event \<Rightarrow> state \<Rightarrow> state" where
  "on_remove ev s =
     (if ev_Op ev AND Remove = Remove then UnwatchDir (ev_Name ev) s else s)"

text \<open>One statement of the controller. At \<open>M_Loop\<close> it is blocked in the
  \<open>select\<close> on \<open>run.Events()\<close>; at \<open>M_Stop_wait\<close> it is blocked in
  \<open>r.Wait()\<close> until the counter is zero.\<close>

definition main_step :: "state \<Rightarrow> state" where
  "main_step s =
     (case m_pc s of
        M_Start_ctx \<Rightarrow> (case Start_scope s of (c, s1) \<Rightarrow> s1\<lparr>m_pc := M_Start_chk c\<rparr>)
      | M_Start_chk c \<Rightarrow> (if \<not> exiting s then s\<lparr>m_pc := M_Start_add c\<rparr> else s\<lparr>m_pc := M_Loop\<rparr>)
      | M_Start_add c \<Rightarrow> (wg_Add 1 s)\<lparr>m_pc := M_Start_go c\<rparr>
      | M_Start_go c \<Rightarrow> (go_worker c s)\<lparr>m_pc := M_Loop\<rparr>
      | M_Loop \<Rightarrow> s
      | M_Create ev st \<Rightarrow> (on_create ev st s)\<lparr>m_pc := M_Remove ev\<rparr>
      | M_Remove ev \<Rightarrow> (on_remove ev s)\<lparr>m_pc := M_Stop_cancel\<rparr>
      | M_Stop_cancel \<Rightarrow> (Stop_cancel T_main s)\<lparr>m_pc := M_Stop_wait\<rparr>
      | M_Stop_wait \<Rightarrow> (if wg s = 0 then s\<lparr>m_pc := M_Start_ctx\<rparr> else s))"

text \<open>The channels of the watcher. \<open>Events\<close> and \<open>Errors\<close> are
  unbuffered, and one goroutine of the library sends on both: while it is
  blocked sending an error it sends no event. \<open>Close\<close> releases that
  goroutine, which gives up what it was sending, and closes the channels; a
  closed channel yields zero values.

  The controller receives an event (line 183) only in its \<open>select\<close>. Any
  event may come at any time, unless the watcher's goroutine is blocked on
  an error; from a closed watcher only the zero event comes.\<close>

definition zero_event :: Event where
  "zero_event = \<lparr>ev_Name = [], ev_Op = 0\<rparr>"

definition delivers :: "Event \<Rightarrow> state \<Rightarrow> bool" where
  "delivers ev s = (if closed s then ev = zero_event else err_pending s = None)"

definition receive :: "Event \<Rightarrow> bool option \<Rightarrow> state \<Rightarrow> state" where
  "receive ev st s =
     (if m_pc s = M_Loop \<and> delivers ev s
      then (say T_main (ReceivedEvent ev) s)\<lparr>m_pc := M_Create ev st\<rparr>
      else s)"

text \<open>The signal goroutine: \<open><-c\<close>, then \<open>cleanup\<close> (lines 145-152), then
  \<open>os.Exit(1)\<close>.\<close>

definition signal :: "state \<Rightarrow> state" where
  "signal s = (if h_pc s = H_Idle then s\<lparr>h_pc := H_Cleanup\<rparr> else s)"

definition handler_step :: "state \<Rightarrow> state" where
  "handler_step s =
     (case h_pc s of
        H_Idle \<Rightarrow> s
      | H_Cleanup \<Rightarrow> (say T_signal CalledCleanup s)\<lparr>exiting := True, h_pc := H_Stop_cancel\<rparr>
      | H_Stop_cancel \<Rightarrow> (Stop_cancel T_signal s)\<lparr>h_pc := H_Stop_wait\<rparr>
      | H_Stop_wait \<Rightarrow> (if wg s = 0 then s\<lparr>h_pc := H_Close\<rparr> else s)
      | H_Close \<Rightarrow> (say T_signal StoppingWatcher s)
                     \<lparr>closed := True, err_pending := None, h_pc := H_Exit\<rparr>
      | H_Exit \<Rightarrow> s\<lparr>status := Exited 1\<rparr>)"

text \<open>The watcher's goroutine has an error to report and blocks sending
  it. No statement of \<open>main.go\<close> reads the \<open>Errors\<close> channel
  (\<open>Events()\<close>, lines 103-105, is the only access to the watcher's
  channels), so the send never completes.\<close>

definition watch_error :: "string \<Rightarrow> state \<Rightarrow> state" where
  "watch_error e s =
     (if err_pending s = None \<and> \<not> closed s then s\<lparr>err_pending := Some e\<rparr> else s)"

text \<open>The watcher takes a path off its record by itself when the watched
  directory is deleted or renamed; its goroutine does so between two
  sends.\<close>

definition watch_drop :: "path \<Rightarrow> state \<Rightarrow> state" where
  "watch_drop p s =
     (if err_pending s = None \<and> \<not> closed s then s\<lparr>watched := watched s - {p}\<rparr> else s)"

section \<open>Schedules\<close>

datatype action =
    A_Main
  | A_Handler
  | A_Worker nat
  | A_Event Event "bool option"
  | A_Signal
  | A_Kill nat
  | A_WatchErr string
  | A_Drop path
  | A_ProcExit nat
  | A_Fork nat
  | A_KidExit nat

text \<open>The goroutines of the program and of its libraries move only while
  the process runs; the command's processes are not bound to it.\<close>

fun act :: "action \<Rightarrow> state \<Rightarrow> state" where
  "act A_Main s = main_step s"
| "act A_Handler s = handler_step s"
| "act (A_Worker i) s = worker_step i s"
| "act (A_Event ev st) s = receive ev st s"
| "act A_Signal s = signal s"
| "act (A_Kill i) s = exec_kill i s"
| "act (A_WatchErr e) s = watch_error e s"
| "act (A_Drop p) s = watch_drop p s"
| "act (A_ProcExit i) s = proc_exit i s"
| "act (A_Fork i) s = proc_fork i s"
| "act (A_KidExit i) s = kid_exit i s"

fun external :: "action \<Rightarrow> bool" where
  "external (A_ProcExit i) = True"
| "external (A_Fork i) = True"
| "external (A_KidExit i) = True"
| "external a = False"

definition step :: "action \<Rightarrow> state \<Rightarrow> state" where
  "step a s = (if status s = Running \<or> external a then act a s else s)"

fun run :: "action list \<Rightarrow> state \<Rightarrow> state" where
  "run [] s = s"
| "run (a # as) s = run as (step a s)"

section \<open>Notions used in the properties\<close>

subsection \<open>The directories that ought to be watched\<close>

text \<open>Every directory of the tree, except a directory named \<open>.git\<close> and
  all that lies below it.\<close>

fun spec_dirs :: "path \<Rightarrow> fsnode \<Rightarrow> path list" where
  "spec_dirs p (File n) = []"
| "spec_dirs p (Dir n kids) =
     (if n = ''.git'' then []
      else p # concat (map (\<lambda>k. spec_dirs (p @ [node_name k]) k) kids))"
| "spec_dirs p (Unreadable n) = (if n = ''.git'' then [] else [p])"
| "spec_dirs p (Gone n) = []"

text \<open>\<open>Lstat\<close> succeeds on every entry of the tree that does not lie below
  a directory named \<open>.git\<close>.\<close>

fun stat_ok :: "fsnode \<Rightarrow> bool" where
  "stat_ok (File n) = True"
| "stat_ok (Dir n kids) = (n = ''.git'' \<or> list_all stat_ok kids)"
| "stat_ok (Unreadable n) = True"
| "stat_ok (Gone n) = False"

text \<open>\<open>s'\<close> differs from \<open>s\<close> in the watch set, the log and the status
  at most.\<close>

definition only_watch :: "state \<Rightarrow> state \<Rightarrow> bool" where
  "only_watch s s' = (s' = s\<lparr>watched := watched s', status := status s', log := log s'\<rparr>)"

subsection \<open>Executions\<close>

text \<open>An execution is active from the \<open>go\<close> statement of \<open>Start\<close> until
  its goroutine has returned.\<close>

definition active :: "worker \<Rightarrow> bool" where
  "active w = (w_pc w \<noteq> W_Returned)"

definition n_active :: "state \<Rightarrow> nat" where
  "n_active s = length (filter active (workers s))"

definition cur_active :: "state \<Rightarrow> bool" where
  "cur_active s = (workers s \<noteq> [] \<and> active (last (workers s)))"

text \<open>The controller is inside \<open>Start\<close>; it has done \<open>r.Add(1)\<close> and not
  yet the \<open>go\<close> statement; the local \<open>ctx\<close> of the running \<open>Start\<close>.\<close>

fun starting :: "mpc \<Rightarrow> bool" where
  "starting M_Start_ctx = True"
| "starting (M_Start_chk c) = True"
| "starting (M_Start_add c) = True"
| "starting (M_Start_go c) = True"
| "starting pc = False"

fun pending_go :: "mpc \<Rightarrow> int" where
  "pending_go (M_Start_go c) = 1"
| "pending_go pc = 0"

fun start_ctx :: "mpc \<Rightarrow> nat option" where
  "start_ctx (M_Start_chk c) = Some c"
| "start_ctx (M_Start_add c) = Some c"
| "start_ctx (M_Start_go c) = Some c"
| "start_ctx pc = None"

text \<open>The invariant of the transition system.\<close>

definition inv :: "state \<Rightarrow> bool" where
  "inv s =
     ((\<forall>i. Suc i < length (workers s) \<longrightarrow> \<not> active (workers s ! i))
    \<and> wg s = (if cur_active s then 1 else 0) + pending_go (m_pc s)
    \<and> (starting (m_pc s) \<longrightarrow> \<not> cur_active s)
    \<and> (cur_active s \<longrightarrow> cancel s = Some (w_ctx (last (workers s))))
    \<and> (\<forall>c. start_ctx (m_pc s) = Some c \<longrightarrow> cancel s = Some c)
    \<and> (m_pc s \<noteq> M_Start_ctx \<longrightarrow> cancel s \<noteq> None))"

subsection \<open>Concrete inputs\<close>

text \<open>A project directory with a repository, a source file and two nested
  source directories; a project directory with two sibling directories, of
  which the watcher refuses the first, or refuses the second, or accepts the
  second without recording it; a project directory with an entry on which
  \<open>Lstat\<close> fails.\<close>

definition tree0 :: fsnode where
  "tree0 = Dir ''proj'' [Dir ''.git'' [Dir ''objects'' []], File ''main.go'',
                         Dir ''src'' [Dir ''pkg'' []]]"

definition env0 :: env where
  "env0 = \<lparr>env_watcher_err = False, env_cwd = Some [''proj''], env_tree = tree0,
            env_add_fails = {}, env_add_ignores = {}\<rparr>"

definition tree1 :: fsnode where
  "tree1 = Dir ''proj'' [Dir ''a'' [], Dir ''b'' []]"

definition env1 :: env where
  "env1 = \<lparr>env_watcher_err = False, env_cwd = Some [''proj''], env_tree = tree1,
            env_add_fails = {[''proj'', ''a'']}, env_add_ignores = {}\<rparr>"

definition env_last :: env where
  "env_last = \<lparr>env_watcher_err = False, env_cwd = Some [''proj''], env_tree = tree1,
                env_add_fails = {[''proj'', ''b'']}, env_add_ignores = {}\<rparr>"

definition tree_gone :: fsnode where
  "tree_gone = Dir ''proj'' [Gone ''a'', Dir ''b'' []]"

definition env_gone :: env where
  "env_gone = \<lparr>env_watcher_err = False, env_cwd = Some [''proj''], env_tree = tree_gone,
                env_add_fails = {}, env_add_ignores = {}\<rparr>"

definition env_alias :: env where
  "env_alias = \<lparr>env_watcher_err = False, env_cwd = Some [''proj''], env_tree = tree1,
                 env_add_fails = {}, env_add_ignores = {[''proj'', ''b'']}\<rparr>"

text \<open>The first project again, with a watcher that refuses \<open>proj/new\<close>,
  and with a watcher that accepts \<open>proj/new\<close> without recording it.\<close>

definition env_refuse :: env where
  "env_refuse = \<lparr>env_watcher_err = False, env_cwd = Some [''proj''], env_tree = tree0,
                  env_add_fails = {[''proj'', ''new'']}, env_add_ignores = {}\<rparr>"

definition env_ignore :: env where
  "env_ignore = \<lparr>env_watcher_err = False, env_cwd = Some [''proj''], env_tree = tree0,
                  env_add_fails = {}, env_add_ignores = {[''proj'', ''new'']}\<rparr>"

text \<open>A write to \<open>proj/main.go\<close>, and the schedule in which the program
  starts the command, receives that event and runs \<open>Stop\<close> up to the return
  of the goroutine; the controller is then about to leave \<open>r.Wait()\<close>.\<close>

definition ev0 :: Event where
  "ev0 = \<lparr>ev_Name = [''proj'', ''main.go''], ev_Op = Write\<rparr>"

definition sched_stop :: "action list" where
  "sched_stop = [A_Main, A_Main, A_Main, A_Main, A_Worker 0, A_Event ev0 None,
                 A_Main, A_Main, A_Main, A_Worker 0]"

text \<open>The same with a subprocess forked by the first shell, continued
  through the restart until the second command runs.\<close>

definition sched_overlap :: "action list" where
  "sched_overlap = [A_Main, A_Main, A_Main, A_Main, A_Worker 0, A_Fork 0, A_Event ev0 None,
                    A_Main, A_Main, A_Main, A_Worker 0, A_Main,
                    A_Main, A_Main, A_Main, A_Main, A_Worker 1]"

text \<open>No process has been waited for.\<close>

definition never_reaped :: "state \<Rightarrow> bool" where
  "never_reaped s = (\<forall>w\<in>set (workers s). w_proc w \<noteq> P_Reaped)"

text \<open>The actions by which the command's subprocesses come and go.\<close>

fun kid_action :: "action \<Rightarrow> bool" where
  "kid_action (A_Fork i) = True"
| "kid_action (A_KidExit i) = True"
| "kid_action a = False"

text \<open>From \<open>s\<close> to \<open>s'\<close> every execution of \<open>s\<close> keeps its number of
  live subprocesses.\<close>

definition kids_kept :: "state \<Rightarrow> state \<Rightarrow> bool" where
  "kids_kept s s' =
     (\<forall>i<length (workers s). i < length (workers s') \<and>
          w_kids (workers s' ! i) = w_kids (workers s ! i))"

text \<open>The shell of the first execution forks a subprocess; an event
  arrives and the controller is about to call \<open>r.cancel()\<close> in \<open>Stop\<close>;
  it has called it.\<close>

definition sched_forked :: "action list" where
  "sched_forked = [A_Main, A_Main, A_Main, A_Main, A_Worker 0, A_Fork 0, A_Event ev0 None,
                   A_Main, A_Main]"

definition sched_cancelled :: "action list" where
  "sched_cancelled = sched_forked @ [A_Main]"

text \<open>A signal arrives after the first \<open>Start\<close>; \<open>cleanup\<close> sets
  \<open>exiting\<close>; an event arrives and the controller runs \<open>Stop\<close> to its
  end, so that it is about to call \<open>Start\<close>.\<close>

definition sched_exiting :: "action list" where
  "sched_exiting = [A_Main, A_Main, A_Main, A_Main, A_Signal, A_Handler, A_Event ev0 None,
                    A_Main, A_Main, A_Main, A_Worker 0, A_Worker 0, A_Main]"

subsection \<open>What the log records\<close>

text \<open>The log lines of one kind, in the order in which they were written:
  those of the controller that mark a received event, a call of \<open>Stop\<close> and
  a call of \<open>Start\<close>; those of the signal goroutine.\<close>

fun restart_msg :: "thread \<times> logmsg \<Rightarrow> bool" where
  "restart_msg (T_main, ReceivedEvent ev) = True"
| "restart_msg (T_main, CalledStop) = True"
| "restart_msg (T_main, CalledStart) = True"
| "restart_msg x = False"

fun by_signal :: "thread \<times> logmsg \<Rightarrow> bool" where
  "by_signal (T_signal, m) = True"
| "by_signal x = False"

fun event_msg :: "thread \<times> logmsg \<Rightarrow> bool" where
  "event_msg (T_main, ReceivedEvent ev) = True"
| "event_msg x = False"

definition logged :: "(thread \<times> logmsg \<Rightarrow> bool) \<Rightarrow> state \<Rightarrow> logmsg list" where
  "logged P s = map snd (filter P (log s))"

definition rtrace :: "state \<Rightarrow> logmsg list" where
  "rtrace s = logged restart_msg s"

definition hlog :: "state \<Rightarrow> logmsg list" where
  "hlog s = logged by_signal s"

definition received :: "state \<Rightarrow> logmsg list" where
  "received s = logged event_msg s"

text \<open>The controller's record as it ought to be: the first \<open>Start\<close>, then
  for every event one \<open>Stop\<close> followed by one \<open>Start\<close>. \<open>owed\<close> is what
  the controller still has to log before it is back in its \<open>select\<close>.\<close>

fun cycles :: "logmsg list \<Rightarrow> bool" where
  "cycles [] = True"
| "cycles (ReceivedEvent ev # CalledStop # CalledStart # r) = cycles r"
| "cycles r = False"

fun restarts_ok :: "logmsg list \<Rightarrow> bool" where
  "restarts_ok (CalledStart # r) = cycles r"
| "restarts_ok r = False"

fun owed :: "mpc \<Rightarrow> logmsg list" where
  "owed M_Start_ctx = [CalledStart]"
| "owed (M_Create ev st) = [CalledStop, CalledStart]"
| "owed (M_Remove ev) = [CalledStop, CalledStart]"
| "owed M_Stop_cancel = [CalledStop, CalledStart]"
| "owed M_Stop_wait = [CalledStart]"
| "owed pc = []"

definition rinv :: "state \<Rightarrow> bool" where
  "rinv s = restarts_ok (rtrace s @ owed (m_pc s))"

subsection \<open>The shutdown\<close>

text \<open>The signal goroutine has called \<open>r.cancel()\<close>; it has returned
  from \<open>r.Wait()\<close>; what it has logged at each of its statements; the
  context of a \<open>Start\<close> that is past its test of \<open>exiting\<close>.\<close>

fun past_cancel :: "hpc \<Rightarrow> bool" where
  "past_cancel H_Stop_wait = True"
| "past_cancel H_Close = True"
| "past_cancel H_Exit = True"
| "past_cancel pc = False"

fun past_wait :: "hpc \<Rightarrow> bool" where
  "past_wait H_Close = True"
| "past_wait H_Exit = True"
| "past_wait pc = False"

text \<open>The goroutine of the execution has returned, or it has started no
  process.\<close>

definition settled :: "worker \<Rightarrow> bool" where
  "settled w = (w_pc w = W_Returned \<or> w_proc w = P_None)"

fun hprog :: "hpc \<Rightarrow> logmsg list" where
  "hprog H_Idle = []"
| "hprog H_Cleanup = []"
| "hprog H_Stop_cancel = [CalledCleanup]"
| "hprog H_Stop_wait = [CalledCleanup, CalledStop, WaitingWaitgroup]"
| "hprog H_Close = [CalledCleanup, CalledStop, WaitingWaitgroup]"
| "hprog H_Exit = [CalledCleanup, CalledStop, WaitingWaitgroup, StoppingWatcher]"

fun go_ctx :: "mpc \<Rightarrow> nat option" where
  "go_ctx (M_Start_add c) = Some c"
| "go_ctx (M_Start_go c) = Some c"
| "go_ctx pc = None"

text \<open>The invariant of the shutdown, for a program that has not
  panicked.\<close>

definition kinv :: "state \<Rightarrow> bool" where
  "kinv s =
     (status s \<noteq> Panicked \<longrightarrow>
        (\<forall>i<length (workers s). w_pc (workers s ! i) = W_Returned
             \<longrightarrow> w_ctx (workers s ! i) \<in> ctx_done s)
      \<and> (past_cancel (h_pc s) \<longrightarrow>
             (\<forall>i<length (workers s). w_ctx (workers s ! i) \<in> ctx_done s)
           \<and> (\<forall>c. go_ctx (m_pc s) = Some c \<longrightarrow> c \<in> ctx_done s))
      \<and> exiting s = (h_pc s \<noteq> H_Idle \<and> h_pc s \<noteq> H_Cleanup)
      \<and> closed s = (h_pc s = H_Exit)
      \<and> hlog s = hprog (h_pc s)
      \<and> (\<forall>k. status s = Exited k \<longrightarrow> k = 1 \<and> (h_pc s = H_Exit \<or> h_pc s = H_Idle)))"

text \<open>Once the signal goroutine has returned from \<open>r.Wait()\<close>, every
  execution is settled.\<close>

definition winv :: "state \<Rightarrow> bool" where
  "winv s = (past_wait (h_pc s) \<longrightarrow> (\<forall>i<length (workers s). settled (workers s ! i)))"

text \<open>From \<open>u\<close> to \<open>u'\<close> the goroutines of the executions have run until
  the completion tracker is zero, and nothing else has moved.\<close>

definition drained :: "state \<Rightarrow> state \<Rightarrow> bool" where
  "drained u u' =
     (wg u' = 0 \<and> status u' = Running \<and> m_pc u' = m_pc u \<and> h_pc u' = h_pc u
      \<and> exiting u' = exiting u \<and> closed u' = closed u \<and> cancel u' = cancel u
      \<and> ctx_done u' = ctx_done u \<and> next_ctx u' = next_ctx u \<and> watched u' = watched u
      \<and> length (workers u') = length (workers u)
      \<and> rtrace u' = rtrace u \<and> hlog u' = hlog u)"

text \<open>The program has started the command and the command runs; then,
  after a signal, the signal goroutine and the goroutine of the execution
  run to the end. In the third schedule the shell has forked a subprocess
  before the signal, and the library kills the shell before the exit.\<close>

definition sched_running :: "action list" where
  "sched_running = [A_Main, A_Main, A_Main, A_Main, A_Worker 0]"

definition sched_shutdown :: "action list" where
  "sched_shutdown = [A_Handler, A_Handler, A_Worker 0, A_Handler, A_Handler, A_Handler]"

definition sched_orphan :: "action list" where
  "sched_orphan = sched_running @ [A_Fork 0, A_Signal, A_Handler, A_Handler, A_Kill 0,
                     A_Worker 0, A_Handler, A_Handler, A_Handler]"

text \<open>Events: a directory \<open>proj/new\<close> is created, the directory
  \<open>proj/src\<close> is removed, a directory \<open>proj/new/.git\<close> is created.\<close>

definition ev_mkdir :: Event where
  "ev_mkdir = \<lparr>ev_Name = [''proj'', ''new''], ev_Op = Create\<rparr>"

definition ev_rmdir :: Event where
  "ev_rmdir = \<lparr>ev_Name = [''proj'', ''src''], ev_Op = Remove\<rparr>"

definition ev_git :: Event where
  "ev_git = \<lparr>ev_Name = [''proj'', ''new'', ''.git''], ev_Op = Create\<rparr>"

text \<open>While \<open>cancel\<close> is \<open>nil\<close> nothing has been started; a panic after
  \<open>NewRerun\<close> is the call of the \<open>nil\<close> function in \<open>Stop\<close> by the
  signal goroutine.\<close>

definition pinv :: "state \<Rightarrow> bool" where
  "pinv s =
     ((cancel s = None \<longrightarrow> workers s = [] \<and> wg s = 0 \<and> m_pc s = M_Start_ctx)
    \<and> (status s = Panicked \<longrightarrow> cancel s = None \<and> h_pc s = H_Stop_wait))"

section \<open>Evaluation\<close>

text \<open>The definitions that a run of the program on a concrete input unfolds.\<close>

lemmas exec_defs = NewRerun_def fresh_def Walk_def WatchDir_def watcher_Add_def
  watcher_Remove_def UnwatchDir_def say_def step_def main_step_def handler_step_def
  worker_step_def receive_def delivers_def signal_def exec_kill_def proc_exit_def proc_fork_def
  kid_exit_def watch_error_def watch_drop_def Start_scope_def WithCancel_def wg_Add_def
  go_worker_def Stop_cancel_def on_create_def on_remove_def Base_def Create_def Remove_def Write_def

lemma run_append: "run (as @ bs) s = run bs (run as s)"
  by (induction as arbitrary: s) simp_all

text \<open>While the program is not exiting, the controller's four statements
  of \<open>Start\<close> amount to \<open>Start\<close> run in one piece.\<close>

lemma Start_steps:
  assumes "status s = Running" and "m_pc s = M_Start_ctx" and "\<not> exiting s" and "0 \<le> wg s"
  shows "run [A_Main, A_Main, A_Main, A_Main] s = (Start s)\<lparr>m_pc := M_Loop\<rparr>"
  using assms
  by (simp add: step_def main_step_def Start_def Start_scope_def WithCancel_def say_def
        wg_Add_def go_worker_def)

section \<open>The start-up traversal\<close>

lemma walk_preserves:
  assumes fn: "\<And>p f e s. R s (snd (fn p f e s))"
    and rf: "\<And>s. R s s"
    and tr: "\<And>a b c. R a b \<Longrightarrow> R b c \<Longrightarrow> R a c"
  shows "R s (snd (walk fn p t s))"
proof (induction t arbitrary: p s)
  case (File n)
  show ?case by (simp add: fn)
next
  case (Dir n kids)
  have names: "R s' (snd (walk_names fn p ks s'))" if "set ks \<subseteq> set kids" for ks s'
    using that
  proof (induction ks arbitrary: s')
    case Nil
    show ?case by (simp add: rf)
  next
    case (Cons k ks)
    have k: "R s' (snd (walk fn (p @ [node_name k]) k s'))"
      using Cons.prems Dir.IH by simp
    show ?case
      using k Cons.IH[of "snd (walk fn (p @ [node_name k]) k s')"] Cons.prems
      by (auto simp: split_beta intro: tr)
  qed
  show ?case
    using fn[of s p "lstat (Dir n kids)" None]
      names[of kids "snd (fn p (lstat (Dir n kids)) None s)"]
    by (auto simp: split_beta intro: tr)
next
  case (Unreadable n)
  show ?case by (simp add: fn)
next
  case (Gone n)
  show ?case by (simp add: fn)
qed

lemma only_watch_refl: "only_watch s s"
  by (simp add: only_watch_def)

lemma only_watch_trans: "only_watch s s' \<Longrightarrow> only_watch s' s'' \<Longrightarrow> only_watch s s''"
proof -
  assume a: "only_watch s s'" and b: "only_watch s' s''"
  from a have e1: "s' = s\<lparr>watched := watched s', status := status s', log := log s'\<rparr>"
    by (simp add: only_watch_def)
  from b have "s'' = s'\<lparr>watched := watched s'', status := status s'', log := log s''\<rparr>"
    by (simp add: only_watch_def)
  then have "s'' = (s\<lparr>watched := watched s', status := status s', log := log s'\<rparr>)
                      \<lparr>watched := watched s'', status := status s'', log := log s''\<rparr>"
    using e1 by simp
  then show ?thesis by (simp add: only_watch_def)
qed

lemma WatchDir_only_watch: "only_watch s (snd (WatchDir p f err s))"
  by (simp add: WatchDir_def watcher_Add_def say_def only_watch_def split: option.splits)

lemma walk_only_watch: "only_watch s (snd (walk WatchDir p t s))"
  by (rule walk_preserves[where R=only_watch])
     (auto intro: WatchDir_only_watch only_watch_refl only_watch_trans)

lemma only_watchD:
  assumes "only_watch s s'"
  shows "wg s' = wg s" "cancel s' = cancel s" "workers s' = workers s" "m_pc s' = m_pc s"
    "h_pc s' = h_pc s" "exiting s' = exiting s"
    "ctx_done s' = ctx_done s" "next_ctx s' = next_ctx s" "closed s' = closed s"
    "err_pending s' = err_pending s" "Command s' = Command s" "add_fails s' = add_fails s"
    "add_ignores s' = add_ignores s"
proof -
  from assms have e: "s' = s\<lparr>watched := watched s', status := status s', log := log s'\<rparr>"
    by (simp add: only_watch_def)
  show "wg s' = wg s" by (subst e) simp
  show "cancel s' = cancel s" by (subst e) simp
  show "workers s' = workers s" by (subst e) simp
  show "m_pc s' = m_pc s" by (subst e) simp
  show "h_pc s' = h_pc s" by (subst e) simp
  show "exiting s' = exiting s" by (subst e) simp
  show "ctx_done s' = ctx_done s" by (subst e) simp
  show "next_ctx s' = next_ctx s" by (subst e) simp
  show "closed s' = closed s" by (subst e) simp
  show "err_pending s' = err_pending s" by (subst e) simp
  show "Command s' = Command s" by (subst e) simp
  show "add_fails s' = add_fails s" by (subst e) simp
  show "add_ignores s' = add_ignores s" by (subst e) simp
qed

lemma WatchDir_dir_ok:
  "\<not> closed s \<Longrightarrow> p \<notin> add_fails s \<Longrightarrow> p \<notin> add_ignores s \<Longrightarrow> n \<noteq> ''.git'' \<Longrightarrow>
   fst (WatchDir p (Some \<lparr>fi_Name = n, fi_IsDir = True\<rparr>) err s) = None \<and>
   watched (snd (WatchDir p (Some \<lparr>fi_Name = n, fi_IsDir = True\<rparr>) err s)) = insert p (watched s) \<and>
   status (snd (WatchDir p (Some \<lparr>fi_Name = n, fi_IsDir = True\<rparr>) err s)) = status s"
  by (simp add: WatchDir_def watcher_Add_def say_def)

lemma WatchDir_git:
  "WatchDir p (Some \<lparr>fi_Name = ''.git'', fi_IsDir = True\<rparr>) err s
     = (Some SkipDir, say T_main IgnoringGit s)"
  by (simp add: WatchDir_def)

lemma WatchDir_file: "WatchDir p (Some \<lparr>fi_Name = n, fi_IsDir = False\<rparr>) err s = (err, s)"
  by (simp add: WatchDir_def)

lemma WatchDir_nil: "WatchDir p None err s = (Some NilFileInfo, s\<lparr>status := Panicked\<rparr>)"
  by (simp add: WatchDir_def)

lemma walk_registers:
  "set (spec_dirs p t) \<inter> (add_fails s \<union> add_ignores s) = {} \<Longrightarrow> \<not> closed s \<Longrightarrow> stat_ok t \<Longrightarrow>
   fst (walk WatchDir p t s) = (if node_isdir t \<and> node_name t = ''.git'' then Some SkipDir else None)
   \<and> watched (snd (walk WatchDir p t s)) = watched s \<union> set (spec_dirs p t)
   \<and> status (snd (walk WatchDir p t s)) = status s"
proof (induction t arbitrary: p s)
  case (File n)
  show ?case by (simp add: WatchDir_file)
next
  case (Gone n)
  then show ?case by simp
next
  case (Unreadable n)
  show ?case
  proof (cases "n = ''.git''")
    case True
    then show ?thesis by (simp add: WatchDir_git say_def)
  next
    case False
    from Unreadable.prems False have "p \<notin> add_fails s" "p \<notin> add_ignores s" "\<not> closed s"
      by auto
    from WatchDir_dir_ok[OF this(3,1,2) False] False show ?thesis by simp
  qed
next
  case (Dir n kids)
  show ?case
  proof (cases "n = ''.git''")
    case True
    then show ?thesis by (simp add: WatchDir_git say_def)
  next
    case False
    have names: "fst (walk_names WatchDir p ks s') = None \<and>
        watched (snd (walk_names WatchDir p ks s')) =
          watched s' \<union> (\<Union>k\<in>set ks. set (spec_dirs (p @ [node_name k]) k)) \<and>
        status (snd (walk_names WatchDir p ks s')) = status s'"
      if "set ks \<subseteq> set kids" and "\<not> closed s'"
        and "\<forall>k\<in>set ks. set (spec_dirs (p @ [node_name k]) k) \<inter> (add_fails s' \<union> add_ignores s') = {}"
        and "\<forall>k\<in>set ks. stat_ok k"
      for ks s'
      using that
    proof (induction ks arbitrary: s')
      case Nil
      show ?case by simp
    next
      case (Cons k ks)
      let ?r = "walk WatchDir (p @ [node_name k]) k s'"
      have k: "fst ?r = (if node_isdir k \<and> node_name k = ''.git'' then Some SkipDir else None)"
        "watched (snd ?r) = watched s' \<union> set (spec_dirs (p @ [node_name k]) k)"
        "status (snd ?r) = status s'"
        using Dir.IH[of k "p @ [node_name k]" s'] Cons.prems by auto
      have af: "add_fails (snd ?r) = add_fails s'" "add_ignores (snd ?r) = add_ignores s'"
        "closed (snd ?r) = closed s'"
        by (simp_all add: only_watchD[OF walk_only_watch])
      have rest: "fst (walk_names WatchDir p ks (snd ?r)) = None \<and>
        watched (snd (walk_names WatchDir p ks (snd ?r))) =
          watched (snd ?r) \<union> (\<Union>k\<in>set ks. set (spec_dirs (p @ [node_name k]) k)) \<and>
        status (snd (walk_names WatchDir p ks (snd ?r))) = status (snd ?r)"
        using Cons.IH[of "snd ?r"] Cons.prems af by auto
      show ?case using k rest by (auto simp: split_beta)
    qed
    let ?w = "WatchDir p (Some \<lparr>fi_Name = n, fi_IsDir = True\<rparr>) None s"
    from Dir.prems False have pf: "p \<notin> add_fails s" and pi: "p \<notin> add_ignores s"
      and nc: "\<not> closed s" and ok: "\<forall>k\<in>set kids. stat_ok k"
      by (auto simp: list_all_iff)
    have w: "fst ?w = None" "watched (snd ?w) = insert p (watched s)" "status (snd ?w) = status s"
      using WatchDir_dir_ok[OF nc pf pi False] by auto
    have af: "add_fails (snd ?w) = add_fails s" "add_ignores (snd ?w) = add_ignores s"
      "closed (snd ?w) = closed s"
      by (simp_all add: only_watchD[OF WatchDir_only_watch])
    have "\<forall>k\<in>set kids. set (spec_dirs (p @ [node_name k]) k)
              \<inter> (add_fails (snd ?w) \<union> add_ignores (snd ?w)) = {}"
      using Dir.prems False af by auto
    moreover have "\<not> closed (snd ?w)" using af nc by simp
    ultimately show ?thesis
      using names[OF subset_refl, of "snd ?w"] w False ok
      by (auto simp: split_beta)
  qed
qed

lemma NewRerun_only_watch: "only_watch (fresh e command) (NewRerun e command)"
proof (cases "env_watcher_err e \<or> env_cwd e = None")
  case True
  then show ?thesis by (auto simp: NewRerun_def only_watch_def)
next
  case False
  then obtain root where "env_cwd e = Some root" by auto
  with False show ?thesis by (simp add: NewRerun_def Walk_def split_beta walk_only_watch)
qed

lemma NewRerun_fields:
  "cancel (NewRerun e command) = None" "h_pc (NewRerun e command) = H_Idle"
  "m_pc (NewRerun e command) = M_Start_ctx" "wg (NewRerun e command) = 0"
  "exiting (NewRerun e command) = False" "closed (NewRerun e command) = False"
  "err_pending (NewRerun e command) = None" "ctx_done (NewRerun e command) = {}"
  using only_watchD[OF NewRerun_only_watch[of e command]] by (simp_all add: fresh_def)

lemma NewRerun_workers: "workers (NewRerun e command) = []"
  using only_watchD(3)[OF NewRerun_only_watch[of e command]] by (simp add: fresh_def)

lemma WatchDir_status:
  "status (snd (WatchDir p f err s)) = status s \<or> status (snd (WatchDir p f err s)) = Panicked"
  by (simp add: WatchDir_def watcher_Add_def say_def split: option.splits)

lemma walk_status:
  "status (snd (walk WatchDir p t s)) = status s \<or> status (snd (walk WatchDir p t s)) = Panicked"
  by (rule walk_preserves[where R="\<lambda>s s'. status s' = status s \<or> status s' = Panicked"])
     (use WatchDir_status in auto)

lemma NewRerun_status:
  "status (NewRerun e command) = Running \<or> status (NewRerun e command) = Exited 1
   \<or> status (NewRerun e command) = Panicked"
  using walk_status[of "the (env_cwd e)" "env_tree e" "fresh e command"]
  by (auto simp: NewRerun_def Walk_def split_beta fresh_def split: option.splits)

section \<open>The invariant holds in every reachable state\<close>

lemma nth_last_cases:
  assumes "i < length ws" and "\<forall>j. Suc j < length ws \<longrightarrow> P (ws ! j)" and "P (last ws)"
  shows "P (ws ! i)"
proof (cases "Suc i < length ws")
  case True
  with assms(2) show ?thesis by simp
next
  case False
  with assms(1) have "i = length ws - 1" by simp
  moreover from assms(1) have "ws \<noteq> []" by auto
  ultimately have "ws ! i = last ws" by (simp add: last_conv_nth)
  with assms(3) show ?thesis by simp
qed

lemma idle_all_returned:
  "inv s \<Longrightarrow> \<not> cur_active s \<Longrightarrow> i < length (workers s) \<Longrightarrow> \<not> active (workers s ! i)"
  unfolding inv_def cur_active_def
  by (rule nth_last_cases[where P="\<lambda>w. \<not> active w"]) auto

lemma say_fields [simp]:
  "wg (say t m s) = wg s" "workers (say t m s) = workers s" "m_pc (say t m s) = m_pc s"
  "cancel (say t m s) = cancel s" "h_pc (say t m s) = h_pc s" "status (say t m s) = status s"
  "exiting (say t m s) = exiting s" "ctx_done (say t m s) = ctx_done s"
  "next_ctx (say t m s) = next_ctx s" "watched (say t m s) = watched s"
  "add_fails (say t m s) = add_fails s" "closed (say t m s) = closed s"
  "err_pending (say t m s) = err_pending s" "Command (say t m s) = Command s"
  "add_ignores (say t m s) = add_ignores s"
  "log (say t m s) = log s @ [(t, m)]"
  by (simp_all add: say_def)

lemma on_create_fields [simp]:
  "wg (on_create ev st s) = wg s" "workers (on_create ev st s) = workers s"
  "m_pc (on_create ev st s) = m_pc s" "cancel (on_create ev st s) = cancel s"
  "h_pc (on_create ev st s) = h_pc s" "status (on_create ev st s) = status s"
  "exiting (on_create ev st s) = exiting s" "ctx_done (on_create ev st s) = ctx_done s"
  "next_ctx (on_create ev st s) = next_ctx s" "add_fails (on_create ev st s) = add_fails s"
  "closed (on_create ev st s) = closed s" "err_pending (on_create ev st s) = err_pending s"
  "Command (on_create ev st s) = Command s" "add_ignores (on_create ev st s) = add_ignores s"
  by (simp_all add: on_create_def WatchDir_def watcher_Add_def split: option.splits)

lemma on_remove_fields [simp]:
  "wg (on_remove ev s) = wg s" "workers (on_remove ev s) = workers s"
  "m_pc (on_remove ev s) = m_pc s" "cancel (on_remove ev s) = cancel s"
  "h_pc (on_remove ev s) = h_pc s" "status (on_remove ev s) = status s"
  "exiting (on_remove ev s) = exiting s" "ctx_done (on_remove ev s) = ctx_done s"
  "next_ctx (on_remove ev s) = next_ctx s" "add_fails (on_remove ev s) = add_fails s"
  "closed (on_remove ev s) = closed s" "err_pending (on_remove ev s) = err_pending s"
  "Command (on_remove ev s) = Command s" "add_ignores (on_remove ev s) = add_ignores s"
  by (simp_all add: on_remove_def UnwatchDir_def watcher_Remove_def)

lemma Stop_cancel_fields [simp]:
  "wg (Stop_cancel t s) = wg s" "workers (Stop_cancel t s) = workers s"
  "m_pc (Stop_cancel t s) = m_pc s" "cancel (Stop_cancel t s) = cancel s"
  "h_pc (Stop_cancel t s) = h_pc s"
  "exiting (Stop_cancel t s) = exiting s"
  "next_ctx (Stop_cancel t s) = next_ctx s" "watched (Stop_cancel t s) = watched s"
  "add_fails (Stop_cancel t s) = add_fails s" "closed (Stop_cancel t s) = closed s"
  "err_pending (Stop_cancel t s) = err_pending s" "Command (Stop_cancel t s) = Command s"
  "add_ignores (Stop_cancel t s) = add_ignores s"
  by (simp_all add: Stop_cancel_def split: option.splits)

lemma cur_active_cong:
  "workers s' = workers s \<Longrightarrow> cur_active s' = cur_active s"
  by (simp add: cur_active_def)

lemma inv_cong:
  "workers s' = workers s \<Longrightarrow> wg s' = wg s \<Longrightarrow> m_pc s' = m_pc s \<Longrightarrow> cancel s' = cancel s
   \<Longrightarrow> inv s' = inv s"
  by (simp add: inv_def cur_active_def)

lemma inv_main: "inv s \<Longrightarrow> inv (main_step s)"
proof (cases "m_pc s")
  case M_Start_ctx
  assume "inv s"
  then show ?thesis using M_Start_ctx
    by (auto simp add: inv_def main_step_def Start_scope_def WithCancel_def cur_active_def)
next
  case (M_Start_chk c)
  assume "inv s"
  then show ?thesis using M_Start_chk
    by (auto simp add: inv_def main_step_def cur_active_def)
next
  case (M_Start_add c)
  assume "inv s"
  then show ?thesis using M_Start_add
    by (auto simp add: inv_def main_step_def wg_Add_def cur_active_def)
next
  case (M_Start_go c)
  assume i: "inv s"
  then have idle: "\<not> cur_active s" using M_Start_go by (auto simp add: inv_def)
  have all: "\<And>i. i < length (workers s) \<Longrightarrow> \<not> active (workers s ! i)"
    using idle_all_returned[OF i idle] .
  show ?thesis
    using i M_Start_go all
    by (auto simp add: inv_def main_step_def go_worker_def cur_active_def active_def nth_append)
next
  case M_Loop
  assume "inv s"
  then show ?thesis using M_Loop by (simp add: main_step_def)
next
  case (M_Create ev st)
  assume "inv s"
  then show ?thesis using M_Create
    by (auto simp add: inv_def main_step_def cur_active_def)
next
  case (M_Remove ev)
  assume "inv s"
  then show ?thesis using M_Remove
    by (auto simp add: inv_def main_step_def cur_active_def)
next
  case M_Stop_cancel
  assume "inv s"
  then show ?thesis using M_Stop_cancel
    by (auto simp add: inv_def main_step_def cur_active_def)
next
  case M_Stop_wait
  assume "inv s"
  then show ?thesis using M_Stop_wait
    by (auto simp add: inv_def main_step_def cur_active_def split: if_splits)
qed

lemma inv_handler: "inv s \<Longrightarrow> inv (handler_step s)"
  by (cases "h_pc s") (auto simp add: inv_def handler_step_def cur_active_def)

lemma inv_receive: "inv s \<Longrightarrow> inv (receive ev st s)"
  by (auto simp add: inv_def receive_def cur_active_def)

lemma inv_signal: "inv s \<Longrightarrow> inv (signal s)"
  by (auto simp add: inv_def signal_def cur_active_def)

lemma inv_watch_error: "inv s \<Longrightarrow> inv (watch_error e s)"
  by (auto simp add: inv_def watch_error_def cur_active_def)

lemma inv_watch_drop: "inv s \<Longrightarrow> inv (watch_drop p s)"
  by (auto simp add: inv_def watch_drop_def cur_active_def)

lemma last_update:
  "i < length ws \<Longrightarrow> last (ws[i := w]) = (if Suc i = length ws then w else last ws)"
  by (cases "ws = []") (auto simp: last_conv_nth nth_list_update)

lemma inv_update_same:
  assumes "inv s" and "i < length (workers s)"
    and "w_pc w' = w_pc (workers s ! i)" and "w_ctx w' = w_ctx (workers s ! i)"
  shows "inv (s\<lparr>workers := (workers s)[i := w']\<rparr>)"
proof -
  have a: "active w' = active (workers s ! i)" using assms(3) by (simp add: active_def)
  have l: "Suc i = length (workers s) \<Longrightarrow> workers s ! i = last (workers s)"
  proof -
    assume e: "Suc i = length (workers s)"
    then have "i = length (workers s) - 1" by simp
    moreover have "workers s \<noteq> []" using assms(2) by auto
    ultimately show ?thesis by (simp add: last_conv_nth)
  qed
  have ca: "cur_active (s\<lparr>workers := (workers s)[i := w']\<rparr>) = cur_active s"
    using assms(2) a l by (auto simp: cur_active_def last_update)
  have lc: "w_ctx (last ((workers s)[i := w'])) = w_ctx (last (workers s))"
    using assms(2,4) l by (auto simp: last_update)
  have nth: "\<And>j. j < length (workers s) \<Longrightarrow> active ((workers s)[i := w'] ! j) = active (workers s ! j)"
  proof -
    fix j assume "j < length (workers s)"
    then show "active ((workers s)[i := w'] ! j) = active (workers s ! j)"
      using a assms(2) by (cases "i = j") simp_all
  qed
  show ?thesis
    using assms(1) ca lc nth unfolding inv_def by auto
qed

lemma inv_exec_kill: "inv s \<Longrightarrow> inv (exec_kill i s)"
  by (auto simp: exec_kill_def intro: inv_update_same)

lemma inv_proc_exit: "inv s \<Longrightarrow> inv (proc_exit i s)"
  by (auto simp: proc_exit_def intro: inv_update_same)

lemma inv_proc_fork: "inv s \<Longrightarrow> inv (proc_fork i s)"
  by (auto simp: proc_fork_def intro: inv_update_same)

lemma inv_kid_exit: "inv s \<Longrightarrow> inv (kid_exit i s)"
  by (auto simp: kid_exit_def intro: inv_update_same)

lemma active_is_last:
  assumes "inv s" and "i < length (workers s)" and "active (workers s ! i)"
  shows "Suc i = length (workers s) \<and> cur_active s \<and> workers s ! i = last (workers s)"
proof -
  from assms have n: "\<not> Suc i < length (workers s)" by (auto simp: inv_def)
  with assms(2) have e: "Suc i = length (workers s)" by simp
  then have "i = length (workers s) - 1" by simp
  moreover have ne: "workers s \<noteq> []" using assms(2) by auto
  ultimately have "workers s ! i = last (workers s)" by (simp add: last_conv_nth)
  with e ne assms(3) show ?thesis by (simp add: cur_active_def)
qed

lemma inv_say: "inv (say t m s) = inv s"
  by (rule inv_cong) simp_all

lemma inv_log_update [simp]: "inv (s\<lparr>log := l\<rparr>) = inv s"
  by (rule inv_cong) simp_all

lemma inv_worker: "inv s \<Longrightarrow> inv (worker_step i s)"
proof (cases "i < length (workers s)")
  case False
  assume "inv s"
  with False show ?thesis by (simp add: worker_step_def)
next
  case True
  assume i: "inv s"
  show ?thesis
  proof (cases "w_pc (workers s ! i)")
    case W_Spawned
    have "inv (s\<lparr>workers := (workers s)[i := (workers s ! i)\<lparr>w_pc := W_Waiting,
            w_proc := (if w_ctx (workers s ! i) \<in> ctx_done s then P_None else P_Alive)\<rparr>]\<rparr>)"
    proof -
      have act: "active (workers s ! i)" using W_Spawned by (simp add: active_def)
      note il = active_is_last[OF i True act]
      have nth: "\<And>j w. j < length (workers s) \<Longrightarrow> Suc j < length (workers s)
            \<Longrightarrow> (workers s)[i := w] ! j = workers s ! j"
        using il by auto
      show ?thesis
        using i il True nth unfolding inv_def cur_active_def
        by (auto simp: last_update active_def)
    qed
    then show ?thesis
      using True W_Spawned
      by (cases "w_ctx (workers s ! i) \<in> ctx_done s")
         (simp_all add: worker_step_def Let_def say_def)
  next
    case W_Waiting
    show ?thesis
    proof (cases "w_ctx (workers s ! i) \<in> ctx_done s")
      case False
      with i True W_Waiting show ?thesis by (simp add: worker_step_def Let_def)
    next
      case d: True
      have act: "active (workers s ! i)" using W_Waiting by (simp add: active_def)
      note il = active_is_last[OF i True act]
      have wg1: "wg s = 1 + pending_go (m_pc s)" using i il by (simp add: inv_def)
      have pg: "0 \<le> pending_go (m_pc s)" by (cases "m_pc s") simp_all
      have nth: "\<And>j w. Suc j < length (workers s)
            \<Longrightarrow> (workers s)[i := w] ! j = workers s ! j"
        using il by auto
      have "inv (s\<lparr>log := l, workers := (workers s)[i := (workers s ! i)\<lparr>w_pc := W_Returned\<rparr>],
                   wg := wg s - 1\<rparr>)" for l
        using i il True nth wg1 unfolding inv_def cur_active_def
        by (auto simp: last_update active_def)
      then show ?thesis
        using True W_Waiting d wg1 pg
        by (simp add: worker_step_def Let_def wg_Add_def say_def)
    qed
  next
    case W_Returned
    with i True show ?thesis by (simp add: worker_step_def Let_def)
  qed
qed

lemma inv_act: "inv s \<Longrightarrow> inv (act a s)"
  by (cases a)
     (simp_all add: inv_main inv_handler inv_worker inv_receive inv_signal inv_watch_error
        inv_watch_drop inv_exec_kill inv_proc_exit inv_proc_fork inv_kid_exit)

lemma inv_step: "inv s \<Longrightarrow> inv (step a s)"
  by (simp add: step_def inv_act)

lemma inv_run: "inv s \<Longrightarrow> inv (run sched s)"
  by (induction sched arbitrary: s) (simp_all add: inv_step)

lemma inv_fresh: "inv (fresh e command)"
  by (simp add: inv_def fresh_def cur_active_def)

lemma inv_NewRerun: "inv (NewRerun e command)"
proof -
  have "inv (NewRerun e command) = inv (fresh e command)"
    by (rule inv_cong) (simp_all add: only_watchD[OF NewRerun_only_watch])
  then show ?thesis by (simp add: inv_fresh)
qed

lemma inv_reachable: "inv (run sched (NewRerun e command))"
  by (rule inv_run[OF inv_NewRerun])

lemma filter_at_most_last:
  assumes "\<forall>i. Suc i < length ws \<longrightarrow> \<not> P (ws ! i)"
  shows "length (filter P ws) = (if ws \<noteq> [] \<and> P (last ws) then 1 else 0)"
proof (cases "ws = []")
  case True
  then show ?thesis by simp
next
  case False
  then have ws: "ws = butlast ws @ [last ws]" by simp
  have "\<not> P x" if "x \<in> set (butlast ws)" for x
  proof -
    from that obtain i where i: "i < length (butlast ws)" "butlast ws ! i = x"
      by (auto simp: in_set_conv_nth)
    then have "Suc i < length ws" by simp
    moreover have "ws ! i = x" using i by (simp add: nth_butlast)
    ultimately show ?thesis using assms by auto
  qed
  then have "filter P (butlast ws) = []" by (simp add: filter_empty_conv)
  then have "filter P ws = filter P [last ws]"
    by (subst ws) (simp only: filter_append, simp)
  with False show ?thesis by simp
qed

lemma n_active_inv: "inv s \<Longrightarrow> n_active s = (if cur_active s then 1 else 0)"
  unfolding n_active_def cur_active_def
  by (rule filter_at_most_last) (simp add: inv_def)

lemma pending_go_nonneg: "0 \<le> pending_go pc"
  by (cases pc) simp_all

lemma wg_nonneg: "inv s \<Longrightarrow> 0 \<le> wg s"
  using pending_go_nonneg[of "m_pc s"] by (simp add: inv_def)

lemma worker_step_workers:
  "workers (worker_step i s) = workers s
   \<or> (i < length (workers s) \<and>
      (workers (worker_step i s) = (workers s)[i := (workers s ! i)\<lparr>w_pc := W_Waiting,
            w_proc := (if w_ctx (workers s ! i) \<in> ctx_done s then P_None else P_Alive)\<rparr>]
       \<or> workers (worker_step i s) = (workers s)[i := (workers s ! i)\<lparr>w_pc := W_Returned\<rparr>]))"
  by (cases "w_pc (workers s ! i)") (auto simp: worker_step_def Let_def wg_Add_def)

section \<open>The record of the controller in the log\<close>

lemma logged_upd [simp]:
  "logged P (s\<lparr>m_pc := a\<rparr>) = logged P s" "logged P (s\<lparr>h_pc := b\<rparr>) = logged P s"
  "logged P (s\<lparr>wg := c\<rparr>) = logged P s" "logged P (s\<lparr>workers := d\<rparr>) = logged P s"
  "logged P (s\<lparr>cancel := f\<rparr>) = logged P s" "logged P (s\<lparr>next_ctx := g\<rparr>) = logged P s"
  "logged P (s\<lparr>status := h\<rparr>) = logged P s" "logged P (s\<lparr>exiting := i\<rparr>) = logged P s"
  "logged P (s\<lparr>closed := j\<rparr>) = logged P s" "logged P (s\<lparr>ctx_done := k\<rparr>) = logged P s"
  "logged P (s\<lparr>err_pending := l\<rparr>) = logged P s" "logged P (s\<lparr>watched := m\<rparr>) = logged P s"
  by (simp_all add: logged_def)

lemma logged_say [simp]: "logged P (say t m s) = logged P s @ (if P (t, m) then [m] else [])"
  by (simp add: logged_def say_def)

lemma logged_WatchDir:
  "\<forall>m. \<not> P (T_main, m) \<or> m \<in> range ReceivedEvent \<union> {CalledStop, CalledStart}
   \<Longrightarrow> logged P (snd (WatchDir p f e s)) = logged P s"
  by (auto simp add: WatchDir_def watcher_Add_def split: option.splits)

lemma logged_walk:
  assumes "\<forall>m. \<not> P (T_main, m) \<or> m \<in> range ReceivedEvent \<union> {CalledStop, CalledStart}"
  shows "logged P (snd (walk WatchDir p t s)) = logged P s"
  by (rule walk_preserves[where R="\<lambda>s s'. logged P s' = logged P s"])
     (simp_all add: logged_WatchDir[OF assms])

lemma logged_NewRerun:
  assumes "\<forall>m. \<not> P (T_main, m) \<or> m \<in> range ReceivedEvent \<union> {CalledStop, CalledStart}"
  shows "logged P (NewRerun e command) = []"
proof -
  have "logged P (fresh e command) = []" by (simp add: logged_def fresh_def)
  moreover have "logged P ((fresh e command)\<lparr>status := Exited 1\<rparr>) = []"
    by (simp add: logged_def fresh_def)
  ultimately show ?thesis
    by (simp add: NewRerun_def Walk_def split_beta logged_walk[OF assms] split: option.splits)
qed

lemma restart_msg_main:
  "\<forall>m. \<not> restart_msg (T_main, m) \<or> m \<in> range ReceivedEvent \<union> {CalledStop, CalledStart}"
proof
  fix m show "\<not> restart_msg (T_main, m) \<or> m \<in> range ReceivedEvent \<union> {CalledStop, CalledStart}"
    by (cases m) simp_all
qed

lemma by_signal_main:
  "\<forall>m. \<not> by_signal (T_main, m) \<or> m \<in> range ReceivedEvent \<union> {CalledStop, CalledStart}"
  by simp

lemma logged_on_create:
  "\<forall>m. \<not> P (T_main, m) \<or> m \<in> range ReceivedEvent \<union> {CalledStop, CalledStart}
   \<Longrightarrow> logged P (on_create ev st s) = logged P s"
  by (auto simp add: on_create_def logged_WatchDir split: option.splits)

lemma logged_on_remove:
  "\<forall>m. \<not> P (T_main, m) \<or> m \<in> range ReceivedEvent \<union> {CalledStop, CalledStart}
   \<Longrightarrow> logged P (on_remove ev s) = logged P s"
  by (auto simp add: on_remove_def UnwatchDir_def watcher_Remove_def)

lemma logged_Stop_cancel:
  "status (Stop_cancel t s) \<noteq> Panicked \<Longrightarrow>
   logged P (Stop_cancel t s) = logged P s @ (if P (t, CalledStop) then [CalledStop] else [])
        @ (if P (t, WaitingWaitgroup) then [WaitingWaitgroup] else [])"
  by (simp add: Stop_cancel_def split: option.splits)

lemma cycles_snoc: "cycles r \<Longrightarrow> cycles (r @ [ReceivedEvent ev, CalledStop, CalledStart])"
  by (induction r rule: cycles.induct) simp_all

lemma restarts_ok_snoc:
  "restarts_ok r \<Longrightarrow> restarts_ok (r @ [ReceivedEvent ev, CalledStop, CalledStart])"
  by (cases r rule: restarts_ok.cases) (simp_all add: cycles_snoc)

lemma rinv_main: "rinv s \<Longrightarrow> rinv (main_step s)"
proof (cases "m_pc s")
  case M_Stop_cancel
  assume "rinv s"
  then show ?thesis using M_Stop_cancel
    by (cases "cancel s")
       (simp_all add: rinv_def rtrace_def main_step_def Stop_cancel_def)
qed (simp_all add: rinv_def rtrace_def main_step_def Start_scope_def WithCancel_def wg_Add_def
       go_worker_def logged_on_create[OF restart_msg_main] logged_on_remove[OF restart_msg_main])

lemma rinv_handler: "rinv s \<Longrightarrow> rinv (handler_step s)"
  by (cases "h_pc s")
     (simp_all add: rinv_def rtrace_def handler_step_def Stop_cancel_def split: option.splits)

lemma rinv_worker: "rinv s \<Longrightarrow> rinv (worker_step i s)"
  by (cases "w_pc (workers s ! i)")
     (simp_all add: rinv_def rtrace_def worker_step_def Let_def wg_Add_def)

lemma rinv_receive: "rinv s \<Longrightarrow> rinv (receive ev st s)"
  using restarts_ok_snoc[of "rtrace s" ev]
  by (auto simp add: rinv_def rtrace_def receive_def)

lemma rinv_step: "rinv s \<Longrightarrow> rinv (step a s)"
  by (cases a)
     (simp_all add: step_def rinv_main rinv_handler rinv_worker rinv_receive,
      simp_all add: rinv_def rtrace_def signal_def exec_kill_def watch_error_def watch_drop_def proc_exit_def
        proc_fork_def kid_exit_def)

lemma rinv_run: "rinv s \<Longrightarrow> rinv (run sched s)"
  by (induction sched arbitrary: s) (simp_all add: rinv_step)

lemma rinv_reachable: "rinv (run sched (NewRerun e command))"
  by (rule rinv_run)
     (simp add: rinv_def rtrace_def logged_NewRerun[OF restart_msg_main] NewRerun_fields)

section \<open>The invariant of the shutdown\<close>

lemma kinv_main: "kinv s \<Longrightarrow> status s = Running \<Longrightarrow> kinv (main_step s)"
proof (cases "m_pc s")
  case M_Stop_cancel
  assume "kinv s" "status s = Running"
  then show ?thesis using M_Stop_cancel
    by (cases "cancel s")
       (auto simp add: kinv_def hlog_def main_step_def Stop_cancel_def)
next
  case (M_Start_go c)
  assume "kinv s" "status s = Running"
  then show ?thesis using M_Start_go
    by (auto simp add: kinv_def hlog_def main_step_def go_worker_def nth_append)
qed (auto simp add: kinv_def hlog_def main_step_def Start_scope_def WithCancel_def wg_Add_def
       logged_on_create[OF by_signal_main] logged_on_remove[OF by_signal_main])

lemma kinv_handler:
  assumes k: "kinv s" and r: "status s = Running" and i: "inv s"
  shows "kinv (handler_step s)"
proof (cases "h_pc s")
  case H_Stop_cancel
  show ?thesis
  proof (cases "cancel s")
    case None
    then show ?thesis using H_Stop_cancel
      by (simp add: kinv_def handler_step_def Stop_cancel_def)
  next
    case (Some c)
    have w: "w_ctx (workers s ! j) \<in> insert c (ctx_done s)" if "j < length (workers s)" for j
    proof (cases "active (workers s ! j)")
      case True
      from active_is_last[OF i that True] i Some show ?thesis
        by (auto simp: inv_def)
    next
      case False
      then show ?thesis using k r that by (simp add: kinv_def active_def)
    qed
    have g: "c' \<in> insert c (ctx_done s)" if "go_ctx (m_pc s) = Some c'" for c'
    proof -
      from that have "start_ctx (m_pc s) = Some c'" by (cases "m_pc s") simp_all
      with i Some show ?thesis by (auto simp: inv_def)
    qed
    show ?thesis
      using k r H_Stop_cancel Some w g
      by (auto simp add: kinv_def hlog_def handler_step_def Stop_cancel_def)
  qed
qed (use k r in \<open>auto simp add: kinv_def hlog_def handler_step_def\<close>)

lemma kinv_worker:
  assumes k: "kinv s" and r: "status s = Running"
  shows "kinv (worker_step j s)"
proof (cases "j < length (workers s)")
  case False
  then show ?thesis using k by (simp add: worker_step_def)
next
  case True
  show ?thesis
  proof (cases "w_pc (workers s ! j)")
    case W_Spawned
    then show ?thesis using k r True
      by (auto simp add: kinv_def hlog_def worker_step_def Let_def nth_list_update)
  next
    case W_Waiting
    then show ?thesis using k r True
      by (auto simp add: kinv_def hlog_def worker_step_def Let_def wg_Add_def nth_list_update)
  next
    case W_Returned
    then show ?thesis using k True by (simp add: worker_step_def Let_def)
  qed
qed

lemma kinv_others:
  assumes k: "kinv s"
  shows "kinv (receive ev st s)" "kinv (watch_error x s)" "kinv (watch_drop p s)"
    "kinv (exec_kill j s)"
    "kinv (proc_exit j s)" "kinv (proc_fork j s)" "kinv (kid_exit j s)"
  using k
  by (auto simp add: kinv_def hlog_def receive_def watch_error_def watch_drop_def exec_kill_def proc_exit_def
        proc_fork_def kid_exit_def nth_list_update)

lemma kinv_signal: "kinv s \<Longrightarrow> status s = Running \<Longrightarrow> kinv (signal s)"
  by (auto simp add: kinv_def hlog_def signal_def)

lemma kinv_step: "inv s \<Longrightarrow> kinv s \<Longrightarrow> kinv (step a s)"
  by (cases a) (auto simp add: step_def kinv_main kinv_handler kinv_worker kinv_others kinv_signal)

lemma kinv_run: "inv s \<Longrightarrow> kinv s \<Longrightarrow> kinv (run sched s)"
  by (induction sched arbitrary: s) (simp_all add: kinv_step inv_step)

lemma kinv_NewRerun: "kinv (NewRerun e command)"
  using NewRerun_status[of e command]
  by (auto simp add: kinv_def hlog_def logged_NewRerun[OF by_signal_main] NewRerun_fields
        NewRerun_workers)

lemma kinv_reachable: "kinv (run sched (NewRerun e command))"
  by (rule kinv_run[OF inv_NewRerun kinv_NewRerun])

lemma no_panic_main:
  assumes "inv s" and "cancel s \<noteq> None" and "status s \<noteq> Panicked"
  shows "status (main_step s) \<noteq> Panicked \<and> cancel (main_step s) \<noteq> None"
  using assms wg_nonneg[OF assms(1)]
  by (cases "m_pc s")
     (auto simp add: main_step_def Start_scope_def WithCancel_def wg_Add_def go_worker_def
        Stop_cancel_def)

lemma no_panic_handler:
  assumes "cancel s \<noteq> None" and "status s \<noteq> Panicked"
  shows "status (handler_step s) \<noteq> Panicked \<and> cancel (handler_step s) \<noteq> None"
  using assms
  by (cases "h_pc s") (auto simp add: handler_step_def Stop_cancel_def)

lemma no_panic_worker:
  assumes "inv s" and "cancel s \<noteq> None" and "status s \<noteq> Panicked"
  shows "status (worker_step j s) \<noteq> Panicked \<and> cancel (worker_step j s) \<noteq> None"
proof (cases "j < length (workers s) \<and> w_pc (workers s ! j) = W_Waiting")
  case True
  then have "active (workers s ! j)" by (simp add: active_def)
  from active_is_last[OF assms(1) _ this] True have "cur_active s" by simp
  with assms(1) pending_go_nonneg[of "m_pc s"] have "1 \<le> wg s" by (simp add: inv_def)
  then show ?thesis using assms True
    by (simp add: worker_step_def Let_def wg_Add_def)
next
  case False
  then show ?thesis using assms
    by (cases "w_pc (workers s ! j)") (auto simp add: worker_step_def Let_def)
qed

lemma no_panic_step:
  assumes "inv s" and "cancel s \<noteq> None" and "status s \<noteq> Panicked"
  shows "status (step a s) \<noteq> Panicked \<and> cancel (step a s) \<noteq> None"
  using assms no_panic_main[OF assms] no_panic_handler[OF assms(2,3)] no_panic_worker[OF assms]
  by (cases a)
     (auto simp add: step_def receive_def signal_def watch_error_def watch_drop_def exec_kill_def proc_exit_def
        proc_fork_def kid_exit_def)

lemma no_panic_run:
  "inv s \<Longrightarrow> cancel s \<noteq> None \<Longrightarrow> status s \<noteq> Panicked
   \<Longrightarrow> status (run sched s) \<noteq> Panicked \<and> cancel (run sched s) \<noteq> None"
proof (induction sched arbitrary: s)
  case Nil
  then show ?case by simp
next
  case (Cons a as)
  from no_panic_step[OF Cons.prems, of a] inv_step[OF Cons.prems(1), of a]
  show ?case using Cons.IH[of "step a s"] by simp
qed

lemma h_pc_stays:
  "h_pc s \<noteq> H_Idle \<Longrightarrow> h_pc (step a s) \<noteq> H_Idle"
proof (cases a)
  case A_Main
  assume "h_pc s \<noteq> H_Idle"
  then show ?thesis unfolding A_Main
    by (cases "m_pc s")
       (auto simp add: step_def main_step_def Start_scope_def WithCancel_def wg_Add_def
          go_worker_def)
next
  case A_Handler
  assume "h_pc s \<noteq> H_Idle"
  then show ?thesis unfolding A_Handler
    by (cases "h_pc s") (auto simp add: step_def handler_step_def)
next
  case (A_Worker j)
  assume "h_pc s \<noteq> H_Idle"
  then show ?thesis unfolding A_Worker
    by (cases "w_pc (workers s ! j)") (auto simp add: step_def worker_step_def Let_def wg_Add_def)
qed (auto simp add: step_def receive_def signal_def watch_error_def watch_drop_def exec_kill_def proc_exit_def
        proc_fork_def kid_exit_def)

lemma h_pc_stays_run: "h_pc s \<noteq> H_Idle \<Longrightarrow> h_pc (run sched s) \<noteq> H_Idle"
  by (induction sched arbitrary: s) (simp_all add: h_pc_stays)

text \<open>What the wait in the shutdown achieves.\<close>

lemma winv_cong:
  "workers s' = workers s \<Longrightarrow> h_pc s' = h_pc s \<Longrightarrow> winv s' = winv s"
  by (simp add: winv_def)

lemma winv_update:
  assumes "winv s" and "workers s' = (workers s)[j := w]" and "h_pc s' = h_pc s"
    and "j < length (workers s) \<Longrightarrow> past_wait (h_pc s) \<Longrightarrow> settled (workers s ! j) \<Longrightarrow> settled w"
  shows "winv s'"
  unfolding winv_def
proof (intro impI allI)
  fix i assume p: "past_wait (h_pc s')" and i: "i < length (workers s')"
  from p assms(3) have p': "past_wait (h_pc s)" by simp
  from i assms(2) have i': "i < length (workers s)" by simp
  from assms(1) p' i' have st: "settled (workers s ! i)" by (simp add: winv_def)
  show "settled (workers s' ! i)"
  proof (cases "i = j")
    case True
    with assms(4) i' p' st assms(2) show ?thesis by simp
  next
    case False
    with st assms(2) show ?thesis by simp
  qed
qed

lemma winv_main: "winv s \<Longrightarrow> winv (main_step s)"
  by (cases "m_pc s")
     (auto simp: winv_def main_step_def Start_scope_def WithCancel_def wg_Add_def
        go_worker_def nth_append settled_def)

lemma winv_handler:
  assumes w: "winv s" and i: "inv s"
  shows "winv (handler_step s)"
proof (cases "h_pc s")
  case H_Stop_wait
  show ?thesis
  proof (cases "wg s = 0")
    case False
    with H_Stop_wait w show ?thesis by (simp add: handler_step_def)
  next
    case True
    from i True pending_go_nonneg[of "m_pc s"] have "\<not> cur_active s"
      by (auto simp: inv_def split: if_splits)
    from idle_all_returned[OF i this]
    have "\<forall>j<length (workers s). settled (workers s ! j)"
      by (simp add: active_def settled_def)
    with H_Stop_wait True show ?thesis by (simp add: winv_def handler_step_def)
  qed
qed (use w in \<open>auto simp add: winv_def handler_step_def\<close>)

lemma worker_step_h_pc: "h_pc (worker_step j s) = h_pc s"
  by (cases "w_pc (workers s ! j)") (simp_all add: worker_step_def Let_def wg_Add_def)

lemma winv_worker:
  assumes w: "winv s" and k: "kinv s" and r: "status s = Running"
  shows "winv (worker_step j s)"
  using worker_step_workers[of j s]
proof (elim disjE conjE)
  assume "workers (worker_step j s) = workers s"
  with w show ?thesis by (simp add: winv_def worker_step_h_pc)
next
  let ?w = "(workers s ! j)\<lparr>w_pc := W_Waiting,
            w_proc := (if w_ctx (workers s ! j) \<in> ctx_done s then P_None else P_Alive)\<rparr>"
  assume j: "j < length (workers s)" and e: "workers (worker_step j s) = (workers s)[j := ?w]"
  have "settled ?w" if "past_wait (h_pc s)"
  proof -
    from that have "past_cancel (h_pc s)" by (cases "h_pc s") simp_all
    with k r j have "w_ctx (workers s ! j) \<in> ctx_done s" by (simp add: kinv_def)
    then show ?thesis by (simp add: settled_def)
  qed
  then show ?thesis by (intro winv_update[OF w e worker_step_h_pc]) simp
next
  let ?w = "(workers s ! j)\<lparr>w_pc := W_Returned\<rparr>"
  assume e: "workers (worker_step j s) = (workers s)[j := ?w]"
  have "settled ?w" by (simp add: settled_def)
  then show ?thesis by (intro winv_update[OF w e worker_step_h_pc]) simp
qed

lemma winv_procs:
  assumes w: "winv s"
  shows "winv (exec_kill j s)" "winv (proc_exit j s)" "winv (proc_fork j s)" "winv (kid_exit j s)"
proof -
  have u: "winv (s\<lparr>workers := (workers s)[j := x]\<rparr>)"
    if "settled (workers s ! j) \<Longrightarrow> settled x" for x
    by (rule winv_update[OF w, of _ j x]) (use that in simp_all)
  show "winv (exec_kill j s)"
    unfolding exec_kill_def using w by (auto intro!: u simp: settled_def)
  show "winv (proc_exit j s)"
    unfolding proc_exit_def using w by (auto intro!: u simp: settled_def)
  show "winv (proc_fork j s)"
    unfolding proc_fork_def using w by (auto intro!: u simp: settled_def)
  show "winv (kid_exit j s)"
    unfolding kid_exit_def using w by (auto intro!: u simp: settled_def)
qed

lemma winv_step:
  assumes i: "inv s" and k: "kinv s" and w: "winv s"
  shows "winv (step a s)"
proof (cases "status s = Running \<or> external a")
  case False
  with w show ?thesis by (simp add: step_def)
next
  case True
  show ?thesis
  proof (cases a)
    case A_Main
    with w show ?thesis by (simp add: step_def winv_main)
  next
    case A_Handler
    with w i show ?thesis by (simp add: step_def winv_handler)
  next
    case (A_Worker j)
    with w k True show ?thesis by (auto simp add: step_def winv_worker)
  qed (use w in \<open>auto simp add: step_def winv_procs, auto simp add: winv_def receive_def
         signal_def watch_error_def watch_drop_def\<close>)
qed

lemma winv_run: "inv s \<Longrightarrow> kinv s \<Longrightarrow> winv s \<Longrightarrow> winv (run sched s)"
  by (induction sched arbitrary: s) (simp_all add: winv_step kinv_step inv_step)

lemma winv_reachable: "winv (run sched (NewRerun e command))"
  by (rule winv_run[OF inv_NewRerun kinv_NewRerun]) (simp add: winv_def NewRerun_fields)

section \<open>Progress\<close>

lemma drain:
  assumes i: "inv u" and r: "status u = Running" and p: "pending_go (m_pc u) = 0"
    and c: "cur_active u \<longrightarrow> w_ctx (last (workers u)) \<in> ctx_done u"
  shows "drained u (run [A_Worker (length (workers u) - 1), A_Worker (length (workers u) - 1)] u)"
proof (cases "cur_active u")
  case False
  with i p have wg0: "wg u = 0" by (simp add: inv_def)
  have "worker_step (length (workers u) - 1) u = u"
  proof (cases "workers u = []")
    case True
    then show ?thesis by (simp add: worker_step_def)
  next
    case ne: False
    then have "workers u ! (length (workers u) - 1) = last (workers u)"
      by (simp add: last_conv_nth)
    with False ne show ?thesis
      by (simp add: worker_step_def Let_def cur_active_def active_def)
  qed
  then show ?thesis using r wg0 by (simp add: step_def drained_def)
next
  case True
  let ?k = "length (workers u) - 1"
  from True have ne: "workers u \<noteq> []" and act: "active (last (workers u))"
    by (simp_all add: cur_active_def)
  from ne have k: "?k < length (workers u)" and l: "workers u ! ?k = last (workers u)"
    by (simp_all add: last_conv_nth)
  from i True p have wg1: "wg u = 1" by (simp add: inv_def)
  from c True l have d: "w_ctx (workers u ! ?k) \<in> ctx_done u" by simp
  show ?thesis
  proof (cases "w_pc (workers u ! ?k)")
    case W_Spawned
    then show ?thesis using r k d wg1
      by (simp add: step_def worker_step_def Let_def wg_Add_def drained_def rtrace_def hlog_def)
  next
    case W_Waiting
    then show ?thesis using r k d wg1
      by (simp add: step_def worker_step_def Let_def wg_Add_def drained_def rtrace_def hlog_def)
  next
    case W_Returned
    with act l show ?thesis by (simp add: active_def)
  qed
qed

lemma handler_exits:
  "status u = Running \<Longrightarrow> h_pc u = H_Stop_wait \<Longrightarrow> wg u = 0
   \<Longrightarrow> status (run [A_Handler, A_Handler, A_Handler] u) = Exited 1"
  by (simp add: step_def handler_step_def)

lemma kinv_ctx_done:
  assumes "kinv u" and "status u = Running" and "past_cancel (h_pc u)"
  shows "cur_active u \<longrightarrow> w_ctx (last (workers u)) \<in> ctx_done u"
proof
  assume "cur_active u"
  then have ne: "workers u \<noteq> []" by (simp add: cur_active_def)
  then have "last (workers u) = workers u ! (length (workers u) - 1)"
    by (simp add: last_conv_nth)
  moreover have "length (workers u) - 1 < length (workers u)" using ne by simp
  ultimately show "w_ctx (last (workers u)) \<in> ctx_done u"
    using assms by (simp add: kinv_def)
qed

lemma exit_from_wait:
  assumes i: "inv u" and k: "kinv u" and r: "status u = Running" and h: "h_pc u = H_Stop_wait"
  shows "\<exists>sched. status (run sched u) = Exited 1"
proof -
  have fin: "\<exists>sched. status (run sched v) = Exited 1"
    if iv: "inv v" and kv: "kinv v" and rv: "status v = Running" and hv: "h_pc v = H_Stop_wait"
      and pv: "pending_go (m_pc v) = 0" for v
  proof -
    let ?d = "[A_Worker (length (workers v) - 1), A_Worker (length (workers v) - 1)]"
    from kinv_ctx_done[OF kv rv] hv
    have "cur_active v \<longrightarrow> w_ctx (last (workers v)) \<in> ctx_done v" by simp
    from drain[OF iv rv pv this] hv
    have "status (run ?d v) = Running" "h_pc (run ?d v) = H_Stop_wait" "wg (run ?d v) = 0"
      by (simp_all add: drained_def)
    from handler_exits[OF this]
    have "status (run (?d @ [A_Handler, A_Handler, A_Handler]) v) = Exited 1"
      by (simp only: run_append)
    then show ?thesis by blast
  qed
  show ?thesis
  proof (cases "pending_go (m_pc u) = 0")
    case True
    from fin[OF i k r h True] show ?thesis .
  next
    case False
    then obtain c where c: "m_pc u = M_Start_go c" by (cases "m_pc u") simp_all
    let ?v = "step A_Main u"
    have v: "status ?v = Running" "h_pc ?v = H_Stop_wait" "pending_go (m_pc ?v) = 0"
      using r h c by (simp_all add: step_def main_step_def go_worker_def)
    from fin[OF inv_step[OF i] kinv_step[OF i k] v]
    obtain sched where "status (run sched ?v) = Exited 1" by blast
    then have "status (run (A_Main # sched) u) = Exited 1" by simp
    then show ?thesis by blast
  qed
qed

lemma exit_reachable:
  assumes i: "inv t" and k: "kinv t" and c: "cancel t \<noteq> None" and r: "status t = Running"
    and h: "h_pc t \<noteq> H_Idle"
  shows "\<exists>sched. status (run sched t) = Exited 1"
proof -
  have from_cancel: "\<exists>sched. status (run sched v) = Exited 1"
    if iv: "inv v" and kv: "kinv v" and cv: "cancel v \<noteq> None" and rv: "status v = Running"
      and hv: "h_pc v = H_Stop_cancel" for v
  proof -
    let ?w = "step A_Handler v"
    have w: "status ?w = Running" "h_pc ?w = H_Stop_wait"
      using cv rv hv by (auto simp add: step_def handler_step_def Stop_cancel_def)
    from exit_from_wait[OF inv_step[OF iv] kinv_step[OF iv kv] w]
    obtain sched where "status (run sched ?w) = Exited 1" by blast
    then have "status (run (A_Handler # sched) v) = Exited 1" by simp
    then show ?thesis by blast
  qed
  show ?thesis
  proof (cases "h_pc t")
    case H_Idle
    with h show ?thesis by simp
  next
    case H_Cleanup
    let ?v = "step A_Handler t"
    have v: "cancel ?v \<noteq> None" "status ?v = Running" "h_pc ?v = H_Stop_cancel"
      using c r H_Cleanup by (simp_all add: step_def handler_step_def)
    from from_cancel[OF inv_step[OF i] kinv_step[OF i k] v]
    obtain sched where "status (run sched ?v) = Exited 1" by blast
    then have "status (run (A_Handler # sched) t) = Exited 1" by simp
    then show ?thesis by blast
  next
    case H_Stop_cancel
    from from_cancel[OF i k c r this] show ?thesis .
  next
    case H_Stop_wait
    from exit_from_wait[OF i k r this] show ?thesis .
  next
    case H_Close
    with r have "status (run [A_Handler, A_Handler] t) = Exited 1"
      by (simp add: step_def handler_step_def)
    then show ?thesis by blast
  next
    case H_Exit
    with r have "status (run [A_Handler] t) = Exited 1"
      by (simp add: step_def handler_step_def)
    then show ?thesis by blast
  qed
qed

lemma stopped_stays: "status t \<noteq> Running \<Longrightarrow> \<not> external a \<Longrightarrow> step a t = t"
  by (simp add: step_def)

lemma restart_completes:
  assumes i: "inv s" and k: "kinv s" and r: "status s = Running" and h: "h_pc s = H_Idle"
    and m: "m_pc s = M_Loop" and n: "err_pending s = None"
  shows "\<exists>sched. m_pc (run sched (step (A_Event ev st) s)) = M_Loop
             \<and> status (run sched (step (A_Event ev st) s)) = Running
             \<and> rtrace (run sched (step (A_Event ev st) s))
                  = rtrace s @ [ReceivedEvent ev, CalledStop, CalledStart]
             \<and> length (workers (run sched (step (A_Event ev st) s))) = Suc (length (workers s))"
proof -
  from i m obtain c where c: "cancel s = Some c" by (auto simp add: inv_def)
  from k r h have x: "\<not> exiting s" and o: "\<not> closed s" by (simp_all add: kinv_def)
  from n o have dl: "delivers ev s" by (simp add: delivers_def)
  define s1 where "s1 = step (A_Event ev st) s"
  define s2 where "s2 = step A_Main s1"
  define s3 where "s3 = step A_Main s2"
  define s4 where "s4 = step A_Main s3"
  have s1: "status s1 = Running" "m_pc s1 = M_Create ev st" "cancel s1 = Some c"
    "ctx_done s1 = ctx_done s" "workers s1 = workers s" "\<not> exiting s1"
    "rtrace s1 = rtrace s @ [ReceivedEvent ev]"
    using r m c x dl by (simp_all add: s1_def step_def receive_def rtrace_def)
  have s2: "status s2 = Running" "m_pc s2 = M_Remove ev" "cancel s2 = Some c"
    "ctx_done s2 = ctx_done s" "workers s2 = workers s" "\<not> exiting s2"
    "rtrace s2 = rtrace s @ [ReceivedEvent ev]"
    using s1 by (simp_all add: s2_def step_def main_step_def rtrace_def
          logged_on_create[OF restart_msg_main])
  have s3: "status s3 = Running" "m_pc s3 = M_Stop_cancel" "cancel s3 = Some c"
    "ctx_done s3 = ctx_done s" "workers s3 = workers s" "\<not> exiting s3"
    "rtrace s3 = rtrace s @ [ReceivedEvent ev]"
    using s2 by (simp_all add: s3_def step_def main_step_def rtrace_def
          logged_on_remove[OF restart_msg_main])
  have s4: "status s4 = Running" "m_pc s4 = M_Stop_wait" "cancel s4 = Some c"
    "ctx_done s4 = insert c (ctx_done s)" "workers s4 = workers s" "\<not> exiting s4"
    "rtrace s4 = rtrace s @ [ReceivedEvent ev, CalledStop]"
    using s3 by (simp_all add: s4_def step_def main_step_def Stop_cancel_def rtrace_def)
  have i4: "inv s4" using i by (simp add: s4_def s3_def s2_def s1_def inv_step)
  have p4: "pending_go (m_pc s4) = 0" using s4(2) by simp
  have c4: "cur_active s4 \<longrightarrow> w_ctx (last (workers s4)) \<in> ctx_done s4"
    using i4 s4(3,4) by (auto simp add: inv_def)
  define d where "d = [A_Worker (length (workers s4) - 1), A_Worker (length (workers s4) - 1)]"
  define s5 where "s5 = run d s4"
  from drain[OF i4 s4(1) p4 c4]
  have s5: "wg s5 = 0" "status s5 = Running" "m_pc s5 = M_Stop_wait" "\<not> exiting s5"
    "length (workers s5) = length (workers s)"
    "rtrace s5 = rtrace s @ [ReceivedEvent ev, CalledStop]"
    using s4 by (simp_all add: drained_def s5_def d_def)
  define s6 where "s6 = step A_Main s5"
  define s7 where "s7 = step A_Main s6"
  define s8 where "s8 = step A_Main s7"
  define s9 where "s9 = step A_Main s8"
  define s10 where "s10 = step A_Main s9"
  have s6: "status s6 = Running" "m_pc s6 = M_Start_ctx" "\<not> exiting s6"
    "length (workers s6) = length (workers s)"
    "rtrace s6 = rtrace s @ [ReceivedEvent ev, CalledStop]"
    using s5 by (simp_all add: s6_def step_def main_step_def rtrace_def)
  have s7: "status s7 = Running" "m_pc s7 = M_Start_chk (next_ctx s6)" "\<not> exiting s7"
    "length (workers s7) = length (workers s)"
    "rtrace s7 = rtrace s @ [ReceivedEvent ev, CalledStop, CalledStart]"
    using s6 by (simp_all add: s7_def step_def main_step_def Start_scope_def WithCancel_def
          rtrace_def)
  have s8: "status s8 = Running" "m_pc s8 = M_Start_add (next_ctx s6)"
    "length (workers s8) = length (workers s)" "wg s8 = wg s7"
    "rtrace s8 = rtrace s @ [ReceivedEvent ev, CalledStop, CalledStart]"
    using s7 by (simp_all add: s8_def step_def main_step_def rtrace_def)
  have i8: "inv s8"
    using i4 by (simp add: s8_def s7_def s6_def s5_def inv_step inv_run)
  have s9: "status s9 = Running" "m_pc s9 = M_Start_go (next_ctx s6)"
    "length (workers s9) = length (workers s)"
    "rtrace s9 = rtrace s @ [ReceivedEvent ev, CalledStop, CalledStart]"
    using s8 wg_nonneg[OF i8]
    by (simp_all add: s9_def step_def main_step_def wg_Add_def rtrace_def)
  have s10: "status s10 = Running" "m_pc s10 = M_Loop"
    "length (workers s10) = Suc (length (workers s))"
    "rtrace s10 = rtrace s @ [ReceivedEvent ev, CalledStop, CalledStart]"
    using s9 by (simp_all add: s10_def step_def main_step_def go_worker_def rtrace_def)
  have "s10 = run ([A_Main, A_Main, A_Main] @ d @ [A_Main, A_Main, A_Main, A_Main, A_Main])
                 (step (A_Event ev st) s)"
    unfolding run_append
    by (simp add: s10_def s9_def s8_def s7_def s6_def s5_def s4_def s3_def s2_def s1_def)
  with s10 show ?thesis by blast
qed

section \<open>C1: one execution at a time\<close>

text \<open>
  C1, as it holds. An execution is the goroutine that \<open>Start\<close> launches and
  the \<open>WaitGroup\<close> tracks. In every state that the program can reach, under
  every schedule and every sequence of events: at most one execution is
  active; every execution but the newest has returned; while the controller
  is inside \<open>Start\<close> no execution is active and the tracker is zero until
  \<open>r.Add(1)\<close>; and the controller takes an event only in its \<open>select\<close>,
  which it reaches after \<open>Start\<close> has returned. The processes of the
  commands are not part of this: \<open>Stop\<close> does not wait for them (C3).
\<close>

theorem c1_one_execution_at_a_time:
  assumes "s = run sched (NewRerun e command)"
  shows "n_active s \<le> 1
       \<and> (\<forall>i. Suc i < length (workers s) \<longrightarrow> w_pc (workers s ! i) = W_Returned)
       \<and> (starting (m_pc s) \<longrightarrow> n_active s = 0 \<and> wg s = pending_go (m_pc s))
       \<and> (m_pc s \<noteq> M_Loop \<longrightarrow> (\<forall>ev st. step (A_Event ev st) s = s))"
proof -
  have i: "inv s" using assms by (simp add: inv_reachable)
  note n = n_active_inv[OF i]
  have 1: "n_active s \<le> 1" using n by simp
  have 2: "\<forall>i. Suc i < length (workers s) \<longrightarrow> w_pc (workers s ! i) = W_Returned"
    using i by (simp add: inv_def active_def)
  have 3: "starting (m_pc s) \<longrightarrow> n_active s = 0 \<and> wg s = pending_go (m_pc s)"
    using i n by (simp add: inv_def)
  have 4: "m_pc s \<noteq> M_Loop \<longrightarrow> (\<forall>ev st. step (A_Event ev st) s = s)"
    by (simp add: step_def receive_def)
  from 1 2 3 4 show ?thesis by blast
qed

theorem c1_one_execution_at_a_time_witness:
  "starting (m_pc (run (sched_stop @ [A_Main]) (NewRerun env0 ''make'')))
   \<and> length (workers (run (sched_stop @ [A_Main]) (NewRerun env0 ''make''))) = 1
   \<and> n_active (run (sched_stop @ [A_Main]) (NewRerun env0 ''make'')) = 0
   \<and> wg (run (sched_stop @ [A_Main]) (NewRerun env0 ''make'')) = 0
   \<and> step (A_Event ev0 None) (run (sched_stop @ [A_Main]) (NewRerun env0 ''make''))
        = run (sched_stop @ [A_Main]) (NewRerun env0 ''make'')"
proof -
  have pc: "m_pc (run (sched_stop @ [A_Main]) (NewRerun env0 ''make'')) = M_Start_ctx"
    and len: "length (workers (run (sched_stop @ [A_Main]) (NewRerun env0 ''make''))) = 1"
    by (simp_all add: sched_stop_def exec_defs env0_def tree0_def ev0_def)
  show ?thesis
    using c1_one_execution_at_a_time[OF refl, of "sched_stop @ [A_Main]" env0 "''make''"] pc len
    by simp
qed

text \<open>As C1 is stated, for the commands themselves, it fails: after the
  restart the shell of the first execution and the shell of the second are
  alive together, and when the library has killed the first shell its
  subprocess still runs beside the second command.\<close>

theorem c1_processes_overlap_counterexample:
  "m_pc (run sched_overlap (NewRerun env0 ''make'')) = M_Loop
   \<and> w_proc (workers (run sched_overlap (NewRerun env0 ''make'')) ! 0) = P_Alive
   \<and> w_proc (workers (run sched_overlap (NewRerun env0 ''make'')) ! 1) = P_Alive
   \<and> w_proc (workers (run (sched_overlap @ [A_Kill 0]) (NewRerun env0 ''make'')) ! 0) = P_Exited
   \<and> w_kids (workers (run (sched_overlap @ [A_Kill 0]) (NewRerun env0 ''make'')) ! 0) = 1
   \<and> w_proc (workers (run (sched_overlap @ [A_Kill 0]) (NewRerun env0 ''make'')) ! 1) = P_Alive"
  by (simp add: sched_overlap_def exec_defs env0_def tree0_def ev0_def)

section \<open>C2: what an event does\<close>

text \<open>
  C2, as it holds. In every reachable state of the running program: the
  controller's record in the log, completed by what it still owes, is the
  first \<open>Start\<close> followed by one \<open>Stop\<close> and then one \<open>Start\<close> for
  every event received, whatever the kind of the event. When the kind
  includes create and \<open>os.Stat\<close> answers a directory whose name is not
  \<open>.git\<close>, the controller calls \<open>watcher.Add\<close> on the path, logs the
  answer (added for \<open>nil\<close>, unable to watch for an error) and goes on; the
  path is put on the watcher's record when the watcher, not yet closed,
  neither refuses it nor leaves it unrecorded, and the record is unchanged
  otherwise. A directory named \<open>.git\<close> is skipped; a failure of
  \<open>os.Stat\<close> is logged and the program goes on. When the kind includes
  remove, the path is not on the record afterwards. And for an event
  received while no shutdown is under way and the watcher's goroutine is not
  blocked on an error (C10), the restart can run to its end: back in the
  \<open>select\<close>, with exactly one \<open>Stop\<close> and one \<open>Start\<close> logged and one
  new execution launched.
\<close>

theorem c2_every_event_restarts_once:
  assumes "s = run sched (NewRerun e command)" and "status s = Running"
  shows "restarts_ok (rtrace s @ owed (m_pc s))
    \<and> (\<forall>ev st. m_pc s = M_Create ev st \<longrightarrow>
          m_pc (step A_Main s) = M_Remove ev \<and> status (step A_Main s) = Running
        \<and> (ev_Op ev AND Create = Create \<and> st = Some True \<and> Base (ev_Name ev) \<noteq> ''.git'' \<longrightarrow>
              step A_Main s
                = (say T_main (if fst (watcher_Add (ev_Name ev) s) = None
                               then AddedDir (ev_Name ev) else UnableToWatch (ev_Name ev))
                     (snd (watcher_Add (ev_Name ev) s)))\<lparr>m_pc := M_Remove ev\<rparr>)
        \<and> watched (step A_Main s)
            = (if ev_Op ev AND Create = Create \<and> st = Some True \<and> Base (ev_Name ev) \<noteq> ''.git''
                  \<and> \<not> closed s \<and> ev_Name ev \<notin> add_fails s \<and> ev_Name ev \<notin> add_ignores s
               then insert (ev_Name ev) (watched s) else watched s)
        \<and> (ev_Op ev AND Create = Create \<and> st = None \<longrightarrow>
              log (step A_Main s) = log s @ [(T_main, StatError (ev_Name ev))])
        \<and> (ev_Op ev AND Create = Create \<and> st = Some True \<and> Base (ev_Name ev) \<noteq> ''.git''
              \<and> (closed s \<or> ev_Name ev \<in> add_fails s) \<longrightarrow>
              log (step A_Main s) = log s @ [(T_main, UnableToWatch (ev_Name ev))])
        \<and> (ev_Op ev AND Create = Create \<and> st = Some True \<and> Base (ev_Name ev) \<noteq> ''.git''
              \<and> \<not> closed s \<and> ev_Name ev \<notin> add_fails s \<longrightarrow>
              log (step A_Main s) = log s @ [(T_main, AddedDir (ev_Name ev))]))
    \<and> (\<forall>ev. m_pc s = M_Remove ev \<longrightarrow>
          m_pc (step A_Main s) = M_Stop_cancel \<and> status (step A_Main s) = Running
        \<and> watched (step A_Main s)
            = (if ev_Op ev AND Remove = Remove then watched s - {ev_Name ev} else watched s))
    \<and> (\<forall>ev st. m_pc s = M_Loop \<and> h_pc s = H_Idle \<and> err_pending s = None \<longrightarrow>
          (\<exists>sched'. m_pc (run sched' (step (A_Event ev st) s)) = M_Loop
             \<and> status (run sched' (step (A_Event ev st) s)) = Running
             \<and> rtrace (run sched' (step (A_Event ev st) s))
                  = rtrace s @ [ReceivedEvent ev, CalledStop, CalledStart]
             \<and> length (workers (run sched' (step (A_Event ev st) s)))
                  = Suc (length (workers s))))"
proof -
  have 1: "restarts_ok (rtrace s @ owed (m_pc s))"
    using rinv_reachable[of sched e command] assms(1) by (simp add: rinv_def)
  have 2: "m_pc (step A_Main s) = M_Remove ev \<and> status (step A_Main s) = Running
        \<and> (ev_Op ev AND Create = Create \<and> st = Some True \<and> Base (ev_Name ev) \<noteq> ''.git'' \<longrightarrow>
              step A_Main s
                = (say T_main (if fst (watcher_Add (ev_Name ev) s) = None
                               then AddedDir (ev_Name ev) else UnableToWatch (ev_Name ev))
                     (snd (watcher_Add (ev_Name ev) s)))\<lparr>m_pc := M_Remove ev\<rparr>)
        \<and> watched (step A_Main s)
            = (if ev_Op ev AND Create = Create \<and> st = Some True \<and> Base (ev_Name ev) \<noteq> ''.git''
                  \<and> \<not> closed s \<and> ev_Name ev \<notin> add_fails s \<and> ev_Name ev \<notin> add_ignores s
               then insert (ev_Name ev) (watched s) else watched s)
        \<and> (ev_Op ev AND Create = Create \<and> st = None \<longrightarrow>
              log (step A_Main s) = log s @ [(T_main, StatError (ev_Name ev))])
        \<and> (ev_Op ev AND Create = Create \<and> st = Some True \<and> Base (ev_Name ev) \<noteq> ''.git''
              \<and> (closed s \<or> ev_Name ev \<in> add_fails s) \<longrightarrow>
              log (step A_Main s) = log s @ [(T_main, UnableToWatch (ev_Name ev))])
        \<and> (ev_Op ev AND Create = Create \<and> st = Some True \<and> Base (ev_Name ev) \<noteq> ''.git''
              \<and> \<not> closed s \<and> ev_Name ev \<notin> add_fails s \<longrightarrow>
              log (step A_Main s) = log s @ [(T_main, AddedDir (ev_Name ev))])"
    if "m_pc s = M_Create ev st" for ev st
    using assms(2) that
    by (auto simp add: step_def main_step_def on_create_def WatchDir_def watcher_Add_def say_def
          split: option.splits)
  have 3: "\<forall>ev. m_pc s = M_Remove ev \<longrightarrow>
          m_pc (step A_Main s) = M_Stop_cancel \<and> status (step A_Main s) = Running
        \<and> watched (step A_Main s)
            = (if ev_Op ev AND Remove = Remove then watched s - {ev_Name ev} else watched s)"
    using assms(2)
    by (auto simp add: step_def main_step_def on_remove_def UnwatchDir_def watcher_Remove_def
          say_def)
  have i: "inv s" and k: "kinv s"
    using assms(1) by (simp_all add: inv_reachable kinv_reachable)
  have 4: "\<forall>ev st. m_pc s = M_Loop \<and> h_pc s = H_Idle \<and> err_pending s = None \<longrightarrow>
          (\<exists>sched'. m_pc (run sched' (step (A_Event ev st) s)) = M_Loop
             \<and> status (run sched' (step (A_Event ev st) s)) = Running
             \<and> rtrace (run sched' (step (A_Event ev st) s))
                  = rtrace s @ [ReceivedEvent ev, CalledStop, CalledStart]
             \<and> length (workers (run sched' (step (A_Event ev st) s)))
                  = Suc (length (workers s)))"
    using restart_completes[OF i k assms(2)] by blast
  from 1 2 3 4 show ?thesis by blast
qed

theorem c2_every_event_restarts_once_witness:
  "m_pc (run (sched_running @ [A_Event ev_mkdir (Some True)]) (NewRerun env0 ''make''))
     = M_Create ev_mkdir (Some True)
   \<and> [''proj'', ''new''] \<in> watched (step A_Main
          (run (sched_running @ [A_Event ev_mkdir (Some True)]) (NewRerun env0 ''make'')))
   \<and> m_pc (step A_Main
          (run (sched_running @ [A_Event ev_mkdir (Some True)]) (NewRerun env0 ''make'')))
       = M_Remove ev_mkdir
   \<and> m_pc (run (sched_running @ [A_Event ev_rmdir None, A_Main]) (NewRerun env0 ''make''))
       = M_Remove ev_rmdir
   \<and> [''proj'', ''src''] \<notin> watched (step A_Main
          (run (sched_running @ [A_Event ev_rmdir None, A_Main]) (NewRerun env0 ''make'')))
   \<and> m_pc (run sched_running (NewRerun env0 ''make'')) = M_Loop
   \<and> (\<exists>sched'. m_pc (run sched' (step (A_Event ev0 None)
                     (run sched_running (NewRerun env0 ''make'')))) = M_Loop
         \<and> rtrace (run sched' (step (A_Event ev0 None)
                     (run sched_running (NewRerun env0 ''make''))))
             = [CalledStart, ReceivedEvent ev0, CalledStop, CalledStart])"
proof -
  let ?c = "run (sched_running @ [A_Event ev_mkdir (Some True)]) (NewRerun env0 ''make'')"
  let ?r = "run (sched_running @ [A_Event ev_rmdir None, A_Main]) (NewRerun env0 ''make'')"
  let ?l = "run sched_running (NewRerun env0 ''make'')"
  have c: "status ?c = Running" "m_pc ?c = M_Create ev_mkdir (Some True)"
    "ev_Name ev_mkdir \<notin> add_fails ?c" "ev_Name ev_mkdir \<notin> add_ignores ?c" "\<not> closed ?c"
    by (simp_all add: sched_running_def exec_defs env0_def tree0_def ev_mkdir_def)
  have r: "status ?r = Running" "m_pc ?r = M_Remove ev_rmdir"
    by (simp_all add: sched_running_def exec_defs env0_def tree0_def ev_rmdir_def)
  have l: "status ?l = Running" "m_pc ?l = M_Loop" "h_pc ?l = H_Idle" "err_pending ?l = None"
    "rtrace ?l = [CalledStart]"
    by (simp_all add: sched_running_def exec_defs env0_def tree0_def rtrace_def logged_def)
  have e: "ev_Op ev_mkdir AND Create = Create" "Base (ev_Name ev_mkdir) \<noteq> ''.git''"
    "ev_Name ev_mkdir = [''proj'', ''new'']"
    "ev_Op ev_rmdir AND Remove = Remove" "ev_Name ev_rmdir = [''proj'', ''src'']"
    by (simp_all add: ev_mkdir_def ev_rmdir_def Create_def Remove_def Base_def)
  from c2_every_event_restarts_once[OF refl c(1)] c(2,3,4,5) e
  have 1: "[''proj'', ''new''] \<in> watched (step A_Main ?c)"
    "m_pc (step A_Main ?c) = M_Remove ev_mkdir"
    by (simp_all add: watcher_Add_def)
  from c2_every_event_restarts_once[OF refl r(1)] r(2) e
  have 2: "[''proj'', ''src''] \<notin> watched (step A_Main ?r)"
    by simp
  from c2_every_event_restarts_once[OF refl l(1)] l(2,3,4,5)
  have 3: "\<exists>sched'. m_pc (run sched' (step (A_Event ev0 None) ?l)) = M_Loop
         \<and> rtrace (run sched' (step (A_Event ev0 None) ?l))
             = [CalledStart, ReceivedEvent ev0, CalledStop, CalledStart]"
    by fastforce
  from c(2) 1 r(2) 2 l(2) 3 show ?thesis by blast
qed

text \<open>As C2 is stated it fails. On a create event for the directory
  \<open>proj/new\<close> that the watcher refuses, the path is not added and the
  refusal is logged; when the watcher answers \<open>nil\<close> without recording the
  path, the program logs that it has added the directory and the path is
  not on the record; on a create event for a directory named \<open>.git\<close> the
  path is not added either.\<close>

theorem c2_directory_not_added_counterexample:
  "m_pc (run (sched_running @ [A_Event ev_mkdir (Some True)]) (NewRerun env_refuse ''make''))
     = M_Create ev_mkdir (Some True)
   \<and> ev_Op ev_mkdir AND Create = Create
   \<and> ev_Name ev_mkdir \<notin> watched (step A_Main
          (run (sched_running @ [A_Event ev_mkdir (Some True)]) (NewRerun env_refuse ''make'')))
   \<and> last (log (step A_Main
          (run (sched_running @ [A_Event ev_mkdir (Some True)]) (NewRerun env_refuse ''make''))))
        = (T_main, UnableToWatch (ev_Name ev_mkdir))
   \<and> m_pc (run (sched_running @ [A_Event ev_mkdir (Some True)]) (NewRerun env_ignore ''make''))
     = M_Create ev_mkdir (Some True)
   \<and> ev_Name ev_mkdir \<notin> watched (step A_Main
          (run (sched_running @ [A_Event ev_mkdir (Some True)]) (NewRerun env_ignore ''make'')))
   \<and> last (log (step A_Main
          (run (sched_running @ [A_Event ev_mkdir (Some True)]) (NewRerun env_ignore ''make''))))
        = (T_main, AddedDir (ev_Name ev_mkdir))
   \<and> m_pc (run (sched_running @ [A_Event ev_git (Some True)]) (NewRerun env0 ''make''))
     = M_Create ev_git (Some True)
   \<and> ev_Op ev_git AND Create = Create
   \<and> ev_Name ev_git \<notin> watched (step A_Main
          (run (sched_running @ [A_Event ev_git (Some True)]) (NewRerun env0 ''make'')))"
  by (simp add: sched_running_def exec_defs env0_def env_refuse_def env_ignore_def tree0_def
        ev_git_def ev_mkdir_def)

section \<open>C3: what \<open>Stop\<close> waits for\<close>

lemma never_reaped_cong: "workers s' = workers s \<Longrightarrow> never_reaped s' = never_reaped s"
  by (simp add: never_reaped_def)

lemma never_reaped_update:
  "never_reaped s \<Longrightarrow> workers s' = (workers s)[i := w] \<Longrightarrow> w_proc w \<noteq> P_Reaped
   \<Longrightarrow> never_reaped s'"
  unfolding never_reaped_def using set_update_subset_insert[of "workers s" i w] by auto

lemma never_reaped_main: "never_reaped s \<Longrightarrow> never_reaped (main_step s)"
  by (cases "m_pc s")
     (auto simp: never_reaped_def main_step_def Start_scope_def WithCancel_def wg_Add_def
        go_worker_def)

lemma never_reaped_handler: "never_reaped s \<Longrightarrow> never_reaped (handler_step s)"
  by (cases "h_pc s") (auto simp: never_reaped_def handler_step_def)

lemma never_reaped_worker:
  assumes "never_reaped s" shows "never_reaped (worker_step i s)"
proof -
  have p: "i < length (workers s) \<Longrightarrow> w_proc (workers s ! i) \<noteq> P_Reaped"
    using assms by (simp add: never_reaped_def)
  from worker_step_workers[of i s] show ?thesis
  proof (elim disjE conjE)
    assume "workers (worker_step i s) = workers s"
    with assms show ?thesis by (simp add: never_reaped_def)
  next
    let ?w = "(workers s ! i)\<lparr>w_pc := W_Waiting,
            w_proc := (if w_ctx (workers s ! i) \<in> ctx_done s then P_None else P_Alive)\<rparr>"
    assume "i < length (workers s)" and w: "workers (worker_step i s) = (workers s)[i := ?w]"
    have "w_proc ?w \<noteq> P_Reaped" by simp
    from never_reaped_update[OF assms w this] show ?thesis .
  next
    let ?w = "(workers s ! i)\<lparr>w_pc := W_Returned\<rparr>"
    assume l: "i < length (workers s)" and w: "workers (worker_step i s) = (workers s)[i := ?w]"
    have "w_proc ?w \<noteq> P_Reaped" using p[OF l] by simp
    from never_reaped_update[OF assms w this] show ?thesis .
  qed
qed

lemma never_reaped_env:
  "never_reaped s \<Longrightarrow> never_reaped (exec_kill i s)"
  "never_reaped s \<Longrightarrow> never_reaped (proc_exit i s)"
  "never_reaped s \<Longrightarrow> never_reaped (proc_fork i s)"
  "never_reaped s \<Longrightarrow> never_reaped (kid_exit i s)"
  "never_reaped s \<Longrightarrow> never_reaped (receive ev st s)"
  "never_reaped s \<Longrightarrow> never_reaped (signal s)"
  "never_reaped s \<Longrightarrow> never_reaped (watch_error x s)"
  "never_reaped s \<Longrightarrow> never_reaped (watch_drop q s)"
proof -
  assume n: "never_reaped s"
  have p: "i < length (workers s) \<Longrightarrow> w_proc (workers s ! i) \<noteq> P_Reaped"
    using n by (simp add: never_reaped_def)
  have u: "never_reaped (s\<lparr>workers := (workers s)[i := w]\<rparr>)" if "w_proc w \<noteq> P_Reaped" for w
    by (rule never_reaped_update[OF n _ that]) simp
  show "never_reaped (exec_kill i s)"
    unfolding exec_kill_def using n by (simp add: u)
  show "never_reaped (proc_exit i s)"
    unfolding proc_exit_def using n by (simp add: u)
  show "never_reaped (proc_fork i s)"
    unfolding proc_fork_def using n p by (simp add: u)
  show "never_reaped (kid_exit i s)"
    unfolding kid_exit_def using n p by (simp add: u)
  show "never_reaped (receive ev st s)"
    using n by (simp add: receive_def never_reaped_def)
  show "never_reaped (signal s)"
    using n by (simp add: signal_def never_reaped_def)
  show "never_reaped (watch_error x s)"
    using n by (simp add: watch_error_def never_reaped_def)
  show "never_reaped (watch_drop q s)"
    using n by (simp add: watch_drop_def never_reaped_def)
qed

lemma never_reaped_step: "never_reaped s \<Longrightarrow> never_reaped (step a s)"
  by (cases a)
     (simp_all add: step_def never_reaped_main never_reaped_handler never_reaped_worker
        never_reaped_env)

lemma never_reaped_run: "never_reaped s \<Longrightarrow> never_reaped (run sched s)"
  by (induction sched arbitrary: s) (simp_all add: never_reaped_step)

lemma never_reaped_reachable: "never_reaped (run sched (NewRerun e command))"
  by (rule never_reaped_run) (simp add: never_reaped_def NewRerun_workers)

text \<open>
  C3, as it holds. Whenever \<open>Stop\<close> returns, in the controller or in the
  signal goroutine, the completion tracker is zero and the goroutine of
  every execution started so far has returned. No process is ever reaped:
  the program never calls \<open>cmd.Wait()\<close>.
\<close>

theorem c3_stop_waits_for_the_goroutine:
  assumes "s = run sched (NewRerun e command)" and "status s = Running"
  shows "(m_pc s = M_Stop_wait \<and> m_pc (step A_Main s) \<noteq> M_Stop_wait \<longrightarrow>
            wg (step A_Main s) = 0 \<and> (\<forall>w\<in>set (workers (step A_Main s)). w_pc w = W_Returned))
       \<and> (h_pc s = H_Stop_wait \<and> h_pc (step A_Handler s) \<noteq> H_Stop_wait \<longrightarrow>
            wg (step A_Handler s) = 0 \<and> (\<forall>w\<in>set (workers (step A_Handler s)). w_pc w = W_Returned))
       \<and> (\<forall>w\<in>set (workers s). w_proc w \<noteq> P_Reaped)"
proof -
  have i: "inv s" using assms(1) by (simp add: inv_reachable)
  have all: "\<forall>w\<in>set (workers s). w_pc w = W_Returned" if "wg s = 0"
  proof -
    have pg: "0 \<le> pending_go (m_pc s)" by (cases "m_pc s") simp_all
    from i that pg have "\<not> cur_active s" by (auto simp: inv_def split: if_splits)
    from idle_all_returned[OF i this] show ?thesis
      by (auto simp: in_set_conv_nth active_def)
  qed
  have 1: "m_pc s = M_Stop_wait \<and> m_pc (step A_Main s) \<noteq> M_Stop_wait \<longrightarrow>
            wg (step A_Main s) = 0 \<and> (\<forall>w\<in>set (workers (step A_Main s)). w_pc w = W_Returned)"
    using all assms(2) by (auto simp: step_def main_step_def split: if_splits)
  have 2: "h_pc s = H_Stop_wait \<and> h_pc (step A_Handler s) \<noteq> H_Stop_wait \<longrightarrow>
            wg (step A_Handler s) = 0 \<and> (\<forall>w\<in>set (workers (step A_Handler s)). w_pc w = W_Returned)"
    using all assms(2) by (auto simp: step_def handler_step_def split: if_splits)
  have 3: "\<forall>w\<in>set (workers s). w_proc w \<noteq> P_Reaped"
    using never_reaped_reachable[of sched e command] assms(1) by (simp add: never_reaped_def)
  from 1 2 3 show ?thesis by blast
qed

theorem c3_stop_waits_for_the_goroutine_witness:
  "status (run sched_stop (NewRerun env0 ''make'')) = Running
   \<and> m_pc (run sched_stop (NewRerun env0 ''make'')) = M_Stop_wait
   \<and> m_pc (step A_Main (run sched_stop (NewRerun env0 ''make''))) \<noteq> M_Stop_wait
   \<and> wg (step A_Main (run sched_stop (NewRerun env0 ''make''))) = 0
   \<and> w_pc (workers (step A_Main (run sched_stop (NewRerun env0 ''make''))) ! 0) = W_Returned
   \<and> w_proc (workers (run sched_stop (NewRerun env0 ''make'')) ! 0) \<noteq> P_Reaped"
proof -
  have st: "status (run sched_stop (NewRerun env0 ''make'')) = Running"
    and pc: "m_pc (run sched_stop (NewRerun env0 ''make'')) = M_Stop_wait"
    and pc': "m_pc (step A_Main (run sched_stop (NewRerun env0 ''make''))) \<noteq> M_Stop_wait"
    and ws: "workers (step A_Main (run sched_stop (NewRerun env0 ''make''))) \<noteq> []"
      "workers (run sched_stop (NewRerun env0 ''make'')) \<noteq> []"
    by (simp_all add: sched_stop_def exec_defs env0_def tree0_def ev0_def)
  show ?thesis
    using c3_stop_waits_for_the_goroutine[OF refl st] st pc pc' ws
    by (auto simp: neq_Nil_conv)
qed

text \<open>As C3 is stated it fails: \<open>Stop\<close> returns, with the tracker at
  zero, while the process of the execution is still alive.\<close>

theorem c3_stop_returns_process_alive_counterexample:
  "m_pc (run sched_stop (NewRerun env0 ''make'')) = M_Stop_wait
   \<and> m_pc (step A_Main (run sched_stop (NewRerun env0 ''make''))) = M_Start_ctx
   \<and> wg (step A_Main (run sched_stop (NewRerun env0 ''make''))) = 0
   \<and> w_pc (workers (step A_Main (run sched_stop (NewRerun env0 ''make''))) ! 0) = W_Returned
   \<and> w_proc (workers (step A_Main (run sched_stop (NewRerun env0 ''make''))) ! 0) = P_Alive"
  by (simp add: sched_stop_def exec_defs env0_def tree0_def ev0_def)

section \<open>C4: what the cancellation reaches\<close>

lemma kids_kept_refl: "kids_kept s s"
  by (simp add: kids_kept_def)

lemma kids_kept_trans: "kids_kept s s' \<Longrightarrow> kids_kept s' s'' \<Longrightarrow> kids_kept s s''"
  by (auto simp: kids_kept_def)

lemma kids_kept_same: "workers s' = workers s \<Longrightarrow> kids_kept s s'"
  by (simp add: kids_kept_def)

lemma kids_kept_update:
  "workers s' = (workers s)[j := w] \<Longrightarrow> (j < length (workers s) \<Longrightarrow> w_kids w = w_kids (workers s ! j))
   \<Longrightarrow> kids_kept s s'"
proof -
  assume w: "workers s' = (workers s)[j := w]"
    and k: "j < length (workers s) \<Longrightarrow> w_kids w = w_kids (workers s ! j)"
  have "w_kids ((workers s)[j := w] ! i) = w_kids (workers s ! i)" if "i < length (workers s)" for i
    using that k by (cases "i = j") simp_all
  with w show ?thesis by (simp add: kids_kept_def)
qed

lemma kids_kept_main: "kids_kept s (main_step s)"
  by (cases "m_pc s")
     (auto simp: kids_kept_def main_step_def Start_scope_def WithCancel_def wg_Add_def
        go_worker_def nth_append)

lemma kids_kept_handler: "kids_kept s (handler_step s)"
  by (cases "h_pc s") (auto simp: kids_kept_def handler_step_def)

lemma kids_kept_worker: "kids_kept s (worker_step j s)"
  using worker_step_workers[of j s]
  by (elim disjE conjE) (auto intro: kids_kept_same kids_kept_update)

lemma kids_kept_exec_kill: "kids_kept s (exec_kill j s)"
  by (auto simp: exec_kill_def intro!: kids_kept_refl kids_kept_update[where j=j])

lemma kids_kept_proc_exit: "kids_kept s (proc_exit j s)"
  by (auto simp: proc_exit_def intro!: kids_kept_refl kids_kept_update[where j=j])

lemma kids_kept_step: "\<not> kid_action a \<Longrightarrow> kids_kept s (step a s)"
  by (cases a)
     (auto simp: step_def kids_kept_main kids_kept_handler kids_kept_worker kids_kept_exec_kill
        kids_kept_proc_exit kids_kept_refl receive_def signal_def watch_error_def
        watch_drop_def intro: kids_kept_same)

lemma kids_kept_run: "\<forall>a\<in>set sched. \<not> kid_action a \<Longrightarrow> kids_kept s (run sched s)"
proof (induction sched arbitrary: s)
  case Nil
  show ?case by (simp add: kids_kept_refl)
next
  case (Cons a as)
  have "kids_kept s (step a s)" using Cons.prems by (simp add: kids_kept_step)
  moreover have "kids_kept (step a s) (run as (step a s))" using Cons by simp
  ultimately show ?case by (auto intro: kids_kept_trans)
qed

text \<open>
  C4, as it holds. Let \<open>Stop\<close> be about to call \<open>r.cancel()\<close>, in the
  controller or in the signal goroutine, in a reachable state in which an
  execution is active. The call cancels the context of that execution, and
  of the state nothing else changes but the log. As long as the context is
  not done the library does not kill; once it is done and the shell is
  alive, the library's kill ends the shell, the process that \<open>cmd.Start()\<close>
  started, and changes nothing else of any execution. No action of the
  program or of its libraries changes the number of live subprocesses of
  the execution: no signal goes to the process group.
\<close>

theorem c4_cancel_kills_the_shell_only:
  assumes "s = run sched (NewRerun e command)" and "status s = Running"
    and "i < length (workers s)" and "active (workers s ! i)"
    and "(m_pc s = M_Stop_cancel \<and> a = A_Main) \<or> (h_pc s = H_Stop_cancel \<and> a = A_Handler)"
  shows "w_ctx (workers s ! i) \<in> ctx_done (step a s)
       \<and> ctx_done (step a s) = insert (w_ctx (workers s ! i)) (ctx_done s)
       \<and> status (step a s) = Running \<and> workers (step a s) = workers s
       \<and> (w_ctx (workers s ! i) \<notin> ctx_done s \<longrightarrow> step (A_Kill i) s = s)
       \<and> (w_proc (workers s ! i) = P_Alive \<longrightarrow>
            workers (step (A_Kill i) (step a s))
              = (workers s)[i := (workers s ! i)\<lparr>w_proc := P_Exited\<rparr>])
       \<and> (\<forall>sched'. (\<forall>b\<in>set sched'. \<not> kid_action b) \<longrightarrow>
            i < length (workers (run sched' (step a s)))
          \<and> w_kids (workers (run sched' (step a s)) ! i) = w_kids (workers s ! i))"
proof -
  have inv: "inv s" using assms(1) by (simp add: inv_reachable)
  from active_is_last[OF inv assms(3,4)] inv
  have c: "cancel s = Some (w_ctx (workers s ! i))" by (auto simp add: inv_def)
  have st: "ctx_done (step a s) = insert (w_ctx (workers s ! i)) (ctx_done s)"
    "status (step a s) = Running" "workers (step a s) = workers s"
    using assms(2,5) c
    by (auto simp add: step_def main_step_def handler_step_def Stop_cancel_def)
  have 1: "w_ctx (workers s ! i) \<notin> ctx_done s \<longrightarrow> step (A_Kill i) s = s"
    by (simp add: step_def exec_kill_def)
  have 2: "w_proc (workers s ! i) = P_Alive \<longrightarrow>
            workers (step (A_Kill i) (step a s))
              = (workers s)[i := (workers s ! i)\<lparr>w_proc := P_Exited\<rparr>]"
    using st assms(3) by (simp add: step_def exec_kill_def)
  have 3: "i < length (workers (run sched' (step a s)))
          \<and> w_kids (workers (run sched' (step a s)) ! i) = w_kids (workers s ! i)"
    if "\<forall>b\<in>set sched'. \<not> kid_action b" for sched'
    using kids_kept_run[OF that, of "step a s"] assms(3) st(3) by (simp add: kids_kept_def)
  from st 1 2 3 show ?thesis by blast
qed

theorem c4_cancel_kills_the_shell_only_witness:
  "status (run sched_forked (NewRerun env0 ''make'')) = Running
   \<and> m_pc (run sched_forked (NewRerun env0 ''make'')) = M_Stop_cancel
   \<and> active (workers (run sched_forked (NewRerun env0 ''make'')) ! 0)
   \<and> w_proc (workers (run sched_forked (NewRerun env0 ''make'')) ! 0) = P_Alive
   \<and> w_ctx (workers (run sched_forked (NewRerun env0 ''make'')) ! 0)
        \<notin> ctx_done (run sched_forked (NewRerun env0 ''make''))
   \<and> w_ctx (workers (run sched_forked (NewRerun env0 ''make'')) ! 0)
        \<in> ctx_done (step A_Main (run sched_forked (NewRerun env0 ''make'')))
   \<and> step (A_Kill 0) (run sched_forked (NewRerun env0 ''make''))
        = run sched_forked (NewRerun env0 ''make'')
   \<and> w_proc (workers (step (A_Kill 0) (step A_Main (run sched_forked (NewRerun env0 ''make'')))) ! 0)
        = P_Exited
   \<and> w_kids (workers (run [A_Kill 0, A_Worker 0, A_Main, A_Handler]
                 (step A_Main (run sched_forked (NewRerun env0 ''make'')))) ! 0) = 1"
proof -
  let ?s = "run sched_forked (NewRerun env0 ''make'')"
  have a: "\<forall>b\<in>set [A_Kill 0, A_Worker 0, A_Main, A_Handler]. \<not> kid_action b" by simp
  have l: "0 < length (workers ?s)"
    and st: "status ?s = Running"
    and pc: "m_pc ?s = M_Stop_cancel"
    and ac: "active (workers ?s ! 0)"
    and p: "w_proc (workers ?s ! 0) = P_Alive"
    and c: "w_ctx (workers ?s ! 0) \<notin> ctx_done ?s"
    and k: "w_kids (workers ?s ! 0) = 1"
    by (simp_all add: sched_forked_def exec_defs env0_def tree0_def ev0_def active_def)
  have d: "(m_pc ?s = M_Stop_cancel \<and> A_Main = A_Main)
           \<or> (h_pc ?s = H_Stop_cancel \<and> A_Main = A_Handler)"
    using pc by simp
  note t = c4_cancel_kills_the_shell_only[OF refl st l ac d]
  from t a have "w_kids (workers (run [A_Kill 0, A_Worker 0, A_Main, A_Handler]
                 (step A_Main ?s)) ! 0) = w_kids (workers ?s ! 0)"
    by blast
  with t st pc ac p c k l show ?thesis by (simp del: run.simps)
qed

text \<open>As C4 is stated it fails: \<open>Stop\<close> has returned and the shell has
  been killed, and the subprocess that the shell had forked is still
  alive.\<close>

theorem c4_subprocess_survives_counterexample:
  "m_pc (run (sched_cancelled @ [A_Kill 0, A_Worker 0, A_Main]) (NewRerun env0 ''make'')) = M_Start_ctx
   \<and> 0 \<in> ctx_done (run (sched_cancelled @ [A_Kill 0, A_Worker 0, A_Main]) (NewRerun env0 ''make''))
   \<and> w_ctx (workers (run (sched_cancelled @ [A_Kill 0, A_Worker 0, A_Main]) (NewRerun env0 ''make'')) ! 0) = 0
   \<and> w_proc (workers (run (sched_cancelled @ [A_Kill 0, A_Worker 0, A_Main]) (NewRerun env0 ''make'')) ! 0) = P_Exited
   \<and> w_kids (workers (run (sched_cancelled @ [A_Kill 0, A_Worker 0, A_Main]) (NewRerun env0 ''make'')) ! 0) = 1"
  by (simp add: sched_cancelled_def sched_forked_def exec_defs env0_def tree0_def ev0_def)

section \<open>C5: the watch set after the start-up traversal\<close>

text \<open>
  C5, as it holds. When the watcher and the current directory are
  available, \<open>Lstat\<close> succeeds on the entries that the walk visits, and the
  watcher neither refuses a directory of the tree nor leaves one
  unrecorded, \<open>NewRerun\<close> returns with the program running, and the watch
  set that it leaves is exactly the set of directories reachable from the
  root that are not named \<open>.git\<close> and do not lie below a directory named
  \<open>.git\<close>. On a directory named \<open>.git\<close> the walk function returns
  \<open>SkipDir\<close> without registering it, and the walk of that directory ends
  there, whatever the directory contains: nothing below it is visited. What
  the traversal does after a refusal is the subject of C6.
\<close>

theorem c5_startup_watch_set:
  assumes "\<not> env_watcher_err e" and "env_cwd e = Some root"
    and "set (spec_dirs root (env_tree e)) \<inter> (env_add_fails e \<union> env_add_ignores e) = {}"
    and "stat_ok (env_tree e)"
  shows "watched (NewRerun e command) = set (spec_dirs root (env_tree e))
       \<and> status (NewRerun e command) = Running
       \<and> (\<forall>p kids s. walk WatchDir p (Dir ''.git'' kids) s
                        = (Some SkipDir, say T_main IgnoringGit s))"
proof -
  have "set (spec_dirs root (env_tree e))
          \<inter> (add_fails (fresh e command) \<union> add_ignores (fresh e command)) = {}"
    using assms(3) by (simp add: fresh_def)
  moreover have "\<not> closed (fresh e command)" by (simp add: fresh_def)
  ultimately have "watched (snd (walk WatchDir root (env_tree e) (fresh e command)))
          = set (spec_dirs root (env_tree e))
      \<and> status (snd (walk WatchDir root (env_tree e) (fresh e command))) = Running"
    using walk_registers[of root "env_tree e" "fresh e command"] assms(4) by (simp add: fresh_def)
  then have "watched (NewRerun e command) = set (spec_dirs root (env_tree e))
      \<and> status (NewRerun e command) = Running"
    using assms(1,2) by (simp add: NewRerun_def Walk_def split_beta)
  moreover have "walk WatchDir p (Dir ''.git'' kids) s = (Some SkipDir, say T_main IgnoringGit s)"
    for p kids s
    by (simp add: WatchDir_git)
  ultimately show ?thesis by blast
qed

theorem c5_startup_watch_set_witness:
  "watched (NewRerun env0 ''make'')
     = {[''proj''], [''proj'', ''src''], [''proj'', ''src'', ''pkg'']}
   \<and> status (NewRerun env0 ''make'') = Running
   \<and> [''proj'', ''.git''] \<notin> watched (NewRerun env0 ''make'')
   \<and> [''proj'', ''.git'', ''objects''] \<notin> watched (NewRerun env0 ''make'')"
proof -
  have 1: "\<not> env_watcher_err env0" by (simp add: env0_def)
  have 2: "env_cwd env0 = Some [''proj'']" by (simp add: env0_def)
  have 3: "set (spec_dirs [''proj''] (env_tree env0))
             \<inter> (env_add_fails env0 \<union> env_add_ignores env0) = {}"
    by (simp add: env0_def)
  have 4: "stat_ok (env_tree env0)" by (simp add: env0_def tree0_def)
  have "watched (NewRerun env0 ''make'') = set (spec_dirs [''proj''] (env_tree env0))
      \<and> status (NewRerun env0 ''make'') = Running"
    using c5_startup_watch_set[OF 1 2 3 4, of "''make''"] by simp
  then show ?thesis by (simp add: env0_def tree0_def)
qed

text \<open>As C5 is stated it fails. The directory \<open>proj/b\<close> is reachable and
  is not named \<open>.git\<close>. When the watcher refuses it, the traversal logs
  the refusal and \<open>proj/b\<close> is not registered. When the watcher answers
  \<open>nil\<close> for it without recording it, the traversal logs that it has
  added the directory and \<open>proj/b\<close> is not registered. When \<open>Lstat\<close>
  fails on the entry \<open>proj/a\<close>, \<open>WatchDir\<close> is called with a \<open>nil\<close>
  \<open>FileInfo\<close> and panics at line 77, and \<open>proj/b\<close> is never visited.\<close>

theorem c5_directory_not_registered_counterexample:
  "[''proj'', ''b''] \<in> set (spec_dirs [''proj''] (env_tree env_last))
   \<and> status (NewRerun env_last ''make'') = Running
   \<and> [''proj'', ''b''] \<notin> watched (NewRerun env_last ''make'')
   \<and> log (NewRerun env_last ''make'')
        = [(T_main, AddedDir [''proj'']), (T_main, AddedDir [''proj'', ''a'']),
           (T_main, UnableToWatch [''proj'', ''b''])]
   \<and> [''proj'', ''b''] \<in> set (spec_dirs [''proj''] (env_tree env_alias))
   \<and> status (NewRerun env_alias ''make'') = Running
   \<and> [''proj'', ''b''] \<notin> watched (NewRerun env_alias ''make'')
   \<and> log (NewRerun env_alias ''make'')
        = [(T_main, AddedDir [''proj'']), (T_main, AddedDir [''proj'', ''a'']),
           (T_main, AddedDir [''proj'', ''b''])]
   \<and> [''proj'', ''b''] \<in> set (spec_dirs [''proj''] (env_tree env_gone))
   \<and> status (NewRerun env_gone ''make'') = Panicked
   \<and> [''proj'', ''b''] \<notin> watched (NewRerun env_gone ''make'')"
  by (simp add: exec_defs env_last_def env_alias_def env_gone_def tree1_def tree_gone_def)

section \<open>C6: a registration failure during the traversal\<close>

text \<open>
  C6. The directory \<open>proj\<close> holds the directories \<open>a\<close> and \<open>b\<close>, and the
  watcher refuses \<open>proj/a\<close>. \<open>WatchDir\<close> logs the failure and returns the
  error of \<open>watcher.Add\<close>; \<open>filepath.Walk\<close> ends the traversal on it:
  \<open>proj/b\<close> is never visited and never registered.
\<close>

theorem c6_add_failure_ends_the_walk:
  "fst (Walk [''proj''] tree1 WatchDir (fresh env1 ''make'')) = Some (AddError [''proj'', ''a''])
   \<and> watched (NewRerun env1 ''make'') = {[''proj'']}
   \<and> [''proj'', ''b''] \<notin> watched (NewRerun env1 ''make'')
   \<and> log (NewRerun env1 ''make'')
        = [(T_main, AddedDir [''proj'']), (T_main, UnableToWatch [''proj'', ''a''])]
   \<and> [''proj'', ''b''] \<in> set (spec_dirs [''proj''] tree1)
   \<and> [''proj'', ''b''] \<notin> env_add_fails env1"
  by (simp add: exec_defs env1_def tree1_def)

section \<open>C7: \<open>Stop\<close> before any \<open>Start\<close>\<close>

text \<open>
  C7. \<open>NewRerun\<close> returns with \<open>cancel\<close> still \<open>nil\<close>, and the signal
  goroutine is already waiting. \<open>Stop\<close> in that state calls the \<open>nil\<close>
  function and panics; a signal that arrives before the controller has
  executed line 36 for the first time takes the program there.
\<close>

theorem c7_stop_before_start_panics:
  "cancel (NewRerun e command) = None
   \<and> status (Stop_cancel t (NewRerun e command)) = Panicked
   \<and> status (run [A_Signal, A_Handler, A_Handler] (NewRerun e command))
        = (if status (NewRerun e command) = Running then Panicked
           else status (NewRerun e command))
   \<and> status (NewRerun env0 ''make'') = Running"
proof -
  have 1: "cancel (NewRerun e command) = None" by (simp add: NewRerun_fields)
  then have 2: "status (Stop_cancel t (NewRerun e command)) = Panicked"
    by (simp add: Stop_cancel_def)
  have 3: "status (run [A_Signal, A_Handler, A_Handler] (NewRerun e command))
        = (if status (NewRerun e command) = Running then Panicked
           else status (NewRerun e command))"
    by (simp add: step_def signal_def handler_step_def NewRerun_fields Stop_cancel_def)
  have 4: "status (NewRerun env0 ''make'') = Running"
    by (simp add: exec_defs env0_def tree0_def)
  from 1 2 3 4 show ?thesis by blast
qed

section \<open>C8: \<open>Start\<close> while exiting\<close>

text \<open>
  C8, as it holds. When \<open>exiting\<close> is true, \<open>Start\<close> launches no
  execution and leaves the completion tracker alone, but it still makes a
  new context and overwrites \<open>r.cancel\<close> with its cancel function: lines
  35-36 come before the test of \<open>r.exiting\<close>. Nothing else changes but
  the log. The controller's two statements amount to the same.
\<close>

theorem c8_start_while_exiting:
  assumes "exiting s"
  shows "Start s = s\<lparr>log := log s @ [(T_main, CalledStart)], next_ctx := Suc (next_ctx s),
                      cancel := Some (next_ctx s)\<rparr>
       \<and> workers (Start s) = workers s \<and> wg (Start s) = wg s
       \<and> (status s = Running \<and> m_pc s = M_Start_ctx \<longrightarrow>
            step A_Main (step A_Main s) = (Start s)\<lparr>m_pc := M_Loop\<rparr>)"
  using assms
  by (simp add: Start_def Start_scope_def WithCancel_def say_def step_def main_step_def)

theorem c8_start_while_exiting_witness:
  "exiting (run sched_exiting (NewRerun env0 ''make''))
   \<and> status (run sched_exiting (NewRerun env0 ''make'')) = Running
   \<and> m_pc (run sched_exiting (NewRerun env0 ''make'')) = M_Start_ctx
   \<and> workers (Start (run sched_exiting (NewRerun env0 ''make'')))
        = workers (run sched_exiting (NewRerun env0 ''make''))
   \<and> wg (Start (run sched_exiting (NewRerun env0 ''make''))) = 0
   \<and> m_pc (step A_Main (step A_Main (run sched_exiting (NewRerun env0 ''make'')))) = M_Loop"
proof -
  have x: "exiting (run sched_exiting (NewRerun env0 ''make''))"
    and st: "status (run sched_exiting (NewRerun env0 ''make'')) = Running"
    and pc: "m_pc (run sched_exiting (NewRerun env0 ''make'')) = M_Start_ctx"
    and w: "wg (run sched_exiting (NewRerun env0 ''make'')) = 0"
    by (simp_all add: sched_exiting_def exec_defs env0_def tree0_def ev0_def)
  show ?thesis
    using c8_start_while_exiting[OF x] x st pc w by simp
qed

text \<open>As C8 is stated it fails: the cancellation handle is 0 before and 1
  after.\<close>

theorem c8_start_replaces_cancel_counterexample:
  "exiting (run sched_exiting (NewRerun env0 ''make''))
   \<and> cancel (run sched_exiting (NewRerun env0 ''make'')) = Some 0
   \<and> cancel (Start (run sched_exiting (NewRerun env0 ''make''))) = Some 1
   \<and> cancel (step A_Main (run sched_exiting (NewRerun env0 ''make''))) = Some 1"
  by (simp add: sched_exiting_def exec_defs env0_def tree0_def ev0_def Start_def)

section \<open>C9: the shutdown on a signal\<close>

text \<open>
  C9, as it holds. Let a signal arrive in a running program whose first
  \<open>Start\<close> has assigned \<open>r.cancel\<close>. Whatever the schedule does from
  then on: the program does not panic; the signal goroutine sets
  \<open>exiting\<close>, calls \<open>Stop\<close>, closes the watcher and exits, in this order
  (its log and the two flags say how far it is). \<open>Stop\<close> waits: when the
  signal goroutine leaves \<open>r.Wait()\<close> the completion tracker is zero and
  the goroutine of every execution has returned; and from then on, while
  the watcher is closed and at the exit, every execution has returned or
  has started no process (a \<open>Start\<close> of the controller that was past its
  test of \<open>exiting\<close> may still launch a goroutine, whose context is
  cancelled already). Once the process has ended its status is 1, the
  context of every execution has been cancelled, and no statement of the
  program runs any more, so no event is processed; and from every state on
  the way the exit can be reached. \<open>Stop\<close> cancels the context and waits
  for the goroutine, not for the child and not for the child's
  subprocesses. A signal before the first \<open>Start\<close> is the subject of C7.
\<close>

theorem c9_shutdown_on_signal:
  assumes "s0 = run sched0 (NewRerun e command)" and "status s0 = Running"
    and "cancel s0 \<noteq> None" and "h_pc s0 = H_Idle"
    and "t = run sched (step A_Signal s0)"
  shows "status t \<noteq> Panicked
       \<and> h_pc t \<noteq> H_Idle \<and> hlog t = hprog (h_pc t)
       \<and> exiting t = (h_pc t \<noteq> H_Cleanup) \<and> closed t = (h_pc t = H_Exit)
       \<and> (h_pc t = H_Stop_wait \<and> h_pc (step A_Handler t) \<noteq> H_Stop_wait \<longrightarrow>
             wg t = 0 \<and> (\<forall>w\<in>set (workers t). w_pc w = W_Returned))
       \<and> (h_pc t = H_Close \<or> h_pc t = H_Exit \<longrightarrow>
             (\<forall>w\<in>set (workers t). w_pc w = W_Returned \<or> w_proc w = P_None))
       \<and> (status t \<noteq> Running \<longrightarrow>
             status t = Exited 1 \<and> exiting t \<and> closed t
           \<and> hlog t = [CalledCleanup, CalledStop, WaitingWaitgroup, StoppingWatcher]
           \<and> (\<forall>w\<in>set (workers t). w_ctx w \<in> ctx_done t)
           \<and> (\<forall>w\<in>set (workers t). w_pc w = W_Returned \<or> w_proc w = P_None)
           \<and> (\<forall>a. \<not> external a \<longrightarrow> step a t = t))
       \<and> (\<exists>sched'. status (run sched' t) = Exited 1)"
proof -
  let ?s1 = "step A_Signal s0"
  have i0: "inv s0" and k0: "kinv s0"
    using assms(1) by (simp_all add: inv_reachable kinv_reachable)
  have s1: "inv ?s1" "kinv ?s1" "cancel ?s1 \<noteq> None" "status ?s1 \<noteq> Panicked" "h_pc ?s1 \<noteq> H_Idle"
    using inv_step[OF i0, of A_Signal] kinv_step[OF i0 k0, of A_Signal] assms(2,3,4)
    by (simp_all add: step_def signal_def)
  have it: "inv t" and kt: "kinv t"
    using assms(5) s1 by (simp_all add: inv_run kinv_run)
  have "t = run (sched0 @ A_Signal # sched) (NewRerun e command)"
    using assms(1,5) by (simp add: run_append)
  then have wt: "winv t" by (simp only: winv_reachable)
  from no_panic_run[OF s1(1,3,4), of sched] assms(5)
  have np: "status t \<noteq> Panicked" and ct: "cancel t \<noteq> None" by simp_all
  from h_pc_stays_run[OF s1(5), of sched] assms(5) have ht: "h_pc t \<noteq> H_Idle" by simp
  from kt np ht have a: "hlog t = hprog (h_pc t)" "exiting t = (h_pc t \<noteq> H_Cleanup)"
    "closed t = (h_pc t = H_Exit)"
    by (simp_all add: kinv_def)
  have w1: "wg t = 0 \<and> (\<forall>w\<in>set (workers t). w_pc w = W_Returned)"
    if l: "h_pc t = H_Stop_wait \<and> h_pc (step A_Handler t) \<noteq> H_Stop_wait"
  proof -
    from l have z: "wg t = 0"
      by (cases "wg t = 0") (auto simp add: step_def handler_step_def split: if_splits)
    with it pending_go_nonneg[of "m_pc t"] have "\<not> cur_active t"
      by (auto simp: inv_def split: if_splits)
    from idle_all_returned[OF it this] z show ?thesis
      by (auto simp: in_set_conv_nth active_def)
  qed
  have w2: "\<forall>w\<in>set (workers t). w_pc w = W_Returned \<or> w_proc w = P_None"
    if "h_pc t = H_Close \<or> h_pc t = H_Exit"
  proof -
    from that have "past_wait (h_pc t)" by auto
    with wt show ?thesis by (auto simp: winv_def settled_def in_set_conv_nth)
  qed
  have b: "status t = Exited 1 \<and> exiting t \<and> closed t
           \<and> hlog t = [CalledCleanup, CalledStop, WaitingWaitgroup, StoppingWatcher]
           \<and> (\<forall>w\<in>set (workers t). w_ctx w \<in> ctx_done t)
           \<and> (\<forall>w\<in>set (workers t). w_pc w = W_Returned \<or> w_proc w = P_None)
           \<and> (\<forall>a. \<not> external a \<longrightarrow> step a t = t)" if nr: "status t \<noteq> Running"
  proof -
    from nr np obtain k where k: "status t = Exited k" by (cases "status t") simp_all
    with kt ht have e: "k = 1" "h_pc t = H_Exit" by (auto simp add: kinv_def)
    from kt np e have "\<forall>i<length (workers t). w_ctx (workers t ! i) \<in> ctx_done t"
      by (simp add: kinv_def)
    then have "\<forall>w\<in>set (workers t). w_ctx w \<in> ctx_done t"
      by (auto simp add: in_set_conv_nth)
    with k e a nr w2 show ?thesis by (simp add: step_def)
  qed
  have c: "\<exists>sched'. status (run sched' t) = Exited 1"
  proof (cases "status t = Running")
    case True
    from exit_reachable[OF it kt ct True ht] show ?thesis .
  next
    case False
    from b[OF False] have "status (run [] t) = Exited 1" by simp
    then show ?thesis by blast
  qed
  from np ht a w1 w2 b c show ?thesis by blast
qed

theorem c9_shutdown_on_signal_witness:
  "status (run sched_running (NewRerun env0 ''make'')) = Running
   \<and> cancel (run sched_running (NewRerun env0 ''make'')) \<noteq> None
   \<and> h_pc (run sched_running (NewRerun env0 ''make'')) = H_Idle
   \<and> status (run sched_shutdown (step A_Signal (run sched_running (NewRerun env0 ''make''))))
        = Exited 1
   \<and> exiting (run sched_shutdown (step A_Signal (run sched_running (NewRerun env0 ''make''))))
   \<and> closed (run sched_shutdown (step A_Signal (run sched_running (NewRerun env0 ''make''))))
   \<and> hlog (run sched_shutdown (step A_Signal (run sched_running (NewRerun env0 ''make''))))
        = [CalledCleanup, CalledStop, WaitingWaitgroup, StoppingWatcher]
   \<and> w_pc (workers (run sched_shutdown (step A_Signal
                (run sched_running (NewRerun env0 ''make'')))) ! 0) = W_Returned
   \<and> step (A_Event ev0 None)
          (run sched_shutdown (step A_Signal (run sched_running (NewRerun env0 ''make''))))
        = run sched_shutdown (step A_Signal (run sched_running (NewRerun env0 ''make'')))"
proof -
  let ?t = "run sched_shutdown (step A_Signal (run sched_running (NewRerun env0 ''make'')))"
  have st: "status (run sched_running (NewRerun env0 ''make'')) = Running"
    and c: "cancel (run sched_running (NewRerun env0 ''make'')) \<noteq> None"
    and h: "h_pc (run sched_running (NewRerun env0 ''make'')) = H_Idle"
    and x: "status ?t \<noteq> Running"
    and p: "w_proc (workers ?t ! 0) = P_Alive" "workers ?t \<noteq> []"
    by (simp_all add: sched_running_def sched_shutdown_def exec_defs env0_def tree0_def)
  have e: "\<not> external (A_Event ev0 None)" by simp
  note t = c9_shutdown_on_signal[OF refl st c h refl, of sched_shutdown]
  from t x p have "w_pc (workers ?t ! 0) = W_Returned"
    by (auto simp: neq_Nil_conv)
  with t st c h x e show ?thesis by blast
qed

text \<open>As C9 is stated it fails. The shell has forked a subprocess; after
  the signal the library kills the shell, the goroutine returns and the
  program exits with status 1: the subprocess is still alive, and nothing of
  the program is left to end it. When the exit comes before the library's
  kill, the shell itself is still alive after the exit. And between the
  signal and the exit the controller still takes an event.\<close>

theorem c9_child_survives_shutdown_counterexample:
  "status (run sched_orphan (NewRerun env0 ''make'')) = Exited 1
   \<and> hlog (run sched_orphan (NewRerun env0 ''make''))
        = [CalledCleanup, CalledStop, WaitingWaitgroup, StoppingWatcher]
   \<and> w_proc (workers (run sched_orphan (NewRerun env0 ''make'')) ! 0) = P_Exited
   \<and> w_kids (workers (run sched_orphan (NewRerun env0 ''make'')) ! 0) = 1
   \<and> w_kids (workers (run (sched_orphan @ [A_Kill 0, A_Main, A_Handler, A_Worker 0])
                         (NewRerun env0 ''make'')) ! 0) = 1
   \<and> status (run sched_shutdown (step A_Signal (run sched_running (NewRerun env0 ''make''))))
     = Exited 1
   \<and> w_proc (workers (run sched_shutdown (step A_Signal
                (run sched_running (NewRerun env0 ''make'')))) ! 0) = P_Alive
   \<and> w_proc (workers (run (sched_shutdown @ [A_Kill 0]) (step A_Signal
                (run sched_running (NewRerun env0 ''make'')))) ! 0) = P_Alive
   \<and> exiting (run (sched_running @ [A_Signal, A_Handler]) (NewRerun env0 ''make''))
   \<and> received (run (sched_running @ [A_Signal, A_Handler, A_Event ev0 None])
                 (NewRerun env0 ''make'')) = [ReceivedEvent ev0]"
  by (simp add: sched_orphan_def sched_running_def sched_shutdown_def exec_defs env0_def tree0_def
        hlog_def received_def logged_def)

section \<open>C10: errors of the watcher\<close>

lemma main_step_watcher:
  "err_pending (main_step s) = err_pending s" "closed (main_step s) = closed s"
  "h_pc (main_step s) = h_pc s"
  by (cases "m_pc s";
      simp add: main_step_def Start_scope_def WithCancel_def wg_Add_def go_worker_def)+

lemma worker_step_watcher:
  "err_pending (worker_step j s) = err_pending s" "closed (worker_step j s) = closed s"
  "h_pc (worker_step j s) = h_pc s" "m_pc (worker_step j s) = m_pc s"
  by (cases "w_pc (workers s ! j)"; simp add: worker_step_def Let_def wg_Add_def)+

lemma event_msg_main:
  "\<forall>m. \<not> event_msg (T_main, m) \<or> m \<in> range ReceivedEvent \<union> {CalledStop, CalledStart}"
proof
  fix m show "\<not> event_msg (T_main, m) \<or> m \<in> range ReceivedEvent \<union> {CalledStop, CalledStart}"
    by (cases m) simp_all
qed

lemma received_main: "received (main_step s) = received s"
  by (cases "m_pc s")
     (simp_all add: received_def main_step_def Start_scope_def WithCancel_def wg_Add_def
        go_worker_def Stop_cancel_def logged_on_create[OF event_msg_main]
        logged_on_remove[OF event_msg_main] split: option.splits)

lemma received_handler: "received (handler_step s) = received s"
  by (cases "h_pc s")
     (simp_all add: received_def handler_step_def Stop_cancel_def split: option.splits)

lemma received_worker:
  "received (worker_step j s) = received s" "rtrace (worker_step j s) = rtrace s"
  by (cases "w_pc (workers s ! j)";
      simp add: received_def rtrace_def worker_step_def Let_def wg_Add_def)+

lemma pending_step:
  assumes "err_pending s = Some e \<or> closed s"
  shows "err_pending (step a s) = Some e \<or> closed (step a s)"
proof (cases a)
  case A_Main
  with assms show ?thesis by (simp add: step_def main_step_watcher)
next
  case A_Handler
  with assms show ?thesis by (cases "h_pc s") (auto simp add: step_def handler_step_def)
next
  case (A_Worker j)
  with assms show ?thesis by (simp add: step_def worker_step_watcher)
qed (use assms in \<open>auto simp add: step_def receive_def signal_def watch_error_def watch_drop_def
       exec_kill_def proc_exit_def proc_fork_def kid_exit_def\<close>)

lemma pending_run:
  "err_pending s = Some e \<or> closed s \<Longrightarrow> err_pending (run sched s) = Some e \<or> closed (run sched s)"
  by (induction sched arbitrary: s) (simp_all add: pending_step)

lemma blocked_step:
  assumes "err_pending s = Some e" and "\<not> closed s" and "h_pc s = H_Idle" and "a \<noteq> A_Signal"
  shows "err_pending (step a s) = Some e \<and> \<not> closed (step a s) \<and> h_pc (step a s) = H_Idle
       \<and> received (step a s) = received s
       \<and> (m_pc s = M_Loop \<longrightarrow> m_pc (step a s) = M_Loop \<and> rtrace (step a s) = rtrace s)"
proof (cases a)
  case A_Main
  with assms show ?thesis
    by (auto simp add: step_def main_step_watcher received_main) (simp_all add: main_step_def)
next
  case A_Handler
  with assms show ?thesis by (simp add: step_def handler_step_def)
next
  case (A_Worker j)
  with assms show ?thesis by (simp add: step_def worker_step_watcher received_worker)
next
  case (A_Event ev st)
  with assms show ?thesis by (simp add: step_def receive_def delivers_def)
next
  case A_Signal
  with assms show ?thesis by simp
qed (use assms in \<open>auto simp add: step_def watch_error_def watch_drop_def
       exec_kill_def proc_exit_def proc_fork_def kid_exit_def received_def rtrace_def\<close>)

lemma blocked_run:
  assumes "err_pending s = Some e" and "\<not> closed s" and "h_pc s = H_Idle"
    and "A_Signal \<notin> set sched"
  shows "err_pending (run sched s) = Some e \<and> \<not> closed (run sched s)
       \<and> received (run sched s) = received s
       \<and> (m_pc s = M_Loop \<longrightarrow> m_pc (run sched s) = M_Loop \<and> rtrace (run sched s) = rtrace s)"
  using assms
proof (induction sched arbitrary: s)
  case Nil
  then show ?case by simp
next
  case (Cons a as)
  from Cons.prems have n: "a \<noteq> A_Signal" "A_Signal \<notin> set as" by auto
  note b = blocked_step[OF Cons.prems(1,2,3) n(1)]
  from b have 1: "err_pending (step a s) = Some e" "\<not> closed (step a s)"
    "h_pc (step a s) = H_Idle" by simp_all
  from Cons.IH[OF 1 n(2)] b show ?case by auto
qed

text \<open>
  C10, as it holds. An error that the watcher reports while the program
  runs changes nothing of the program's state: it is neither logged nor
  fatal. No statement of the program takes it off the \<open>Errors\<close> channel:
  under every schedule it stays pending until \<open>Close\<close>. While it is
  pending the watcher's goroutine reports no second error and delivers no
  event. So, as long as no signal arrives, the controller receives no
  further event, and once it is back in its \<open>select\<close> it stays there: no
  restart happens any more.
\<close>

theorem c10_unread_error_blocks_the_events:
  assumes "status s0 = Running" and "err_pending s0 = None" and "\<not> closed s0"
    and "s = step (A_WatchErr x) s0"
  shows "s = s0\<lparr>err_pending := Some x\<rparr>
       \<and> step (A_Event ev st) s = s
       \<and> step (A_WatchErr y) s = s
       \<and> (err_pending (run sched s) = Some x \<or> closed (run sched s))
       \<and> (h_pc s0 = H_Idle \<and> A_Signal \<notin> set sched \<longrightarrow>
            err_pending (run sched s) = Some x
          \<and> received (run sched s) = received s0
          \<and> (m_pc s0 = M_Loop \<longrightarrow> m_pc (run sched s) = M_Loop \<and> rtrace (run sched s) = rtrace s0))"
proof -
  have s: "s = s0\<lparr>err_pending := Some x\<rparr>"
    using assms by (simp add: step_def watch_error_def)
  then have f: "err_pending s = Some x" "\<not> closed s" "h_pc s = h_pc s0" "m_pc s = m_pc s0"
    "received s = received s0" "rtrace s = rtrace s0"
    using assms(3) by (simp_all add: received_def rtrace_def)
  have 1: "step (A_Event ev st) s = s" "step (A_WatchErr y) s = s"
    using f by (simp_all add: step_def receive_def delivers_def watch_error_def)
  have 2: "err_pending (run sched s) = Some x \<or> closed (run sched s)"
    using pending_run[of s x sched] f by simp
  have 3: "err_pending (run sched s) = Some x
          \<and> received (run sched s) = received s0
          \<and> (m_pc s0 = M_Loop \<longrightarrow> m_pc (run sched s) = M_Loop \<and> rtrace (run sched s) = rtrace s0)"
    if "h_pc s0 = H_Idle" and "A_Signal \<notin> set sched"
    using blocked_run[OF f(1,2) _ that(2)] that(1) f by simp
  from s 1 2 3 show ?thesis by blast
qed

theorem c10_unread_error_blocks_the_events_witness:
  "status (run sched_running (NewRerun env0 ''make'')) = Running
   \<and> err_pending (run sched_running (NewRerun env0 ''make'')) = None
   \<and> \<not> closed (run sched_running (NewRerun env0 ''make''))
   \<and> m_pc (run sched_running (NewRerun env0 ''make'')) = M_Loop
   \<and> err_pending (step (A_WatchErr ''overflow'') (run sched_running (NewRerun env0 ''make'')))
        = Some ''overflow''
   \<and> m_pc (run [A_Event ev0 None, A_Main, A_Worker 0, A_Event ev0 None]
              (step (A_WatchErr ''overflow'') (run sched_running (NewRerun env0 ''make''))))
        = M_Loop
   \<and> rtrace (run [A_Event ev0 None, A_Main, A_Worker 0, A_Event ev0 None]
              (step (A_WatchErr ''overflow'') (run sched_running (NewRerun env0 ''make''))))
        = [CalledStart]"
proof -
  let ?s0 = "run sched_running (NewRerun env0 ''make'')"
  let ?sched = "[A_Event ev0 None, A_Main, A_Worker 0, A_Event ev0 None]"
  define s where "s = step (A_WatchErr ''overflow'') ?s0"
  have a: "status ?s0 = Running" "err_pending ?s0 = None" "\<not> closed ?s0"
    and b: "m_pc ?s0 = M_Loop" "h_pc ?s0 = H_Idle" "rtrace ?s0 = [CalledStart]"
    by (simp_all add: sched_running_def exec_defs env0_def tree0_def rtrace_def logged_def)
  have n: "A_Signal \<notin> set ?sched" by simp
  note t = c10_unread_error_blocks_the_events[OF a s_def, of ev0 None "''overflow''" ?sched]
  from t have 1: "err_pending s = Some ''overflow''" by simp
  from t b(2) n have "m_pc ?s0 = M_Loop \<longrightarrow>
      m_pc (run ?sched s) = M_Loop \<and> rtrace (run ?sched s) = rtrace ?s0"
    by blast
  with b have 2: "m_pc (run ?sched s) = M_Loop" "rtrace (run ?sched s) = [CalledStart]"
    by (simp_all del: run.simps)
  from a b 1 2 show ?thesis unfolding s_def by blast
qed

text \<open>As C10 is stated it fails: the event loop does not go on unaffected.
  Without the error the controller takes the event; after the error the
  same event does not reach it, the controller stays in its \<open>select\<close> and
  the command is not restarted.\<close>

theorem c10_event_after_error_counterexample:
  "m_pc (run (sched_running @ [A_Event ev0 None]) (NewRerun env0 ''make'')) = M_Create ev0 None
   \<and> status (run (sched_running @ [A_WatchErr ''overflow'', A_Event ev0 None])
               (NewRerun env0 ''make'')) = Running
   \<and> m_pc (run (sched_running @ [A_WatchErr ''overflow'', A_Event ev0 None])
               (NewRerun env0 ''make'')) = M_Loop
   \<and> received (run (sched_running @ [A_WatchErr ''overflow'', A_Event ev0 None, A_Main,
                  A_Worker 0, A_Event ev0 None]) (NewRerun env0 ''make'')) = []
   \<and> rtrace (run (sched_running @ [A_WatchErr ''overflow'', A_Event ev0 None, A_Main,
                  A_Worker 0, A_Event ev0 None]) (NewRerun env0 ''make'')) = [CalledStart]"
  by (simp add: sched_running_def exec_defs env0_def tree0_def ev0_def received_def rtrace_def
        logged_def)

section \<open>Further properties of \<open>Stop\<close>\<close>

lemma pinv_step:
  assumes i: "inv s" and p: "pinv s"
  shows "pinv (step a s)"
proof (cases "status s = Running")
  case False
  then show ?thesis using p
    by (cases a)
       (auto simp add: step_def pinv_def proc_exit_def proc_fork_def kid_exit_def)
next
  case True
  show ?thesis
  proof (cases "cancel s")
    case (Some c)
    then have c: "cancel s \<noteq> None" by simp
    from True have "status s \<noteq> Panicked" by simp
    from no_panic_step[OF i c this, of a] show ?thesis by (auto simp add: pinv_def)
  next
    case None
    with p have e: "workers s = []" "wg s = 0" "m_pc s = M_Start_ctx" by (simp_all add: pinv_def)
    show ?thesis
    proof (cases a)
      case A_Main
      then show ?thesis using True e
        by (simp add: step_def pinv_def main_step_def Start_scope_def WithCancel_def)
    next
      case A_Handler
      then show ?thesis using True e None
        by (cases "h_pc s") (simp_all add: step_def pinv_def handler_step_def Stop_cancel_def)
    next
      case (A_Worker j)
      then show ?thesis using True e p by (simp add: step_def worker_step_def)
    qed (use True e None p in \<open>simp_all add: step_def pinv_def receive_def signal_def
           watch_error_def watch_drop_def exec_kill_def proc_exit_def proc_fork_def kid_exit_def\<close>)
  qed
qed

lemma pinv_run: "inv s \<Longrightarrow> pinv s \<Longrightarrow> pinv (run sched s)"
  by (induction sched arbitrary: s) (simp_all add: pinv_step inv_step)

lemma pinv_NewRerun: "status (NewRerun e command) \<noteq> Panicked \<Longrightarrow> pinv (NewRerun e command)"
  by (simp add: pinv_def NewRerun_fields NewRerun_workers)

text \<open>
  X1. Once \<open>NewRerun\<close> has returned, the program can panic in one way
  only: the signal goroutine calls \<open>Stop\<close> while \<open>cancel\<close> is still
  \<open>nil\<close>, before any execution has been started. Once \<open>Start\<close> has
  assigned \<open>r.cancel\<close> it stays assigned and no schedule leads to a
  panic.
\<close>

theorem x1_the_only_panic:
  assumes "s = run sched (NewRerun e command)" and "status (NewRerun e command) = Running"
  shows "(status s = Panicked \<longrightarrow> cancel s = None \<and> h_pc s = H_Stop_wait \<and> workers s = [])
       \<and> (cancel s \<noteq> None \<longrightarrow>
            status (run sched' s) \<noteq> Panicked \<and> cancel (run sched' s) \<noteq> None)"
proof -
  have i: "inv s" using assms(1) by (simp add: inv_reachable)
  have "pinv (NewRerun e command)" using assms(2) by (simp add: pinv_NewRerun)
  then have "pinv s" using assms(1) pinv_run[OF inv_NewRerun] by simp
  then have 1: "status s = Panicked \<longrightarrow> cancel s = None \<and> h_pc s = H_Stop_wait \<and> workers s = []"
    by (simp add: pinv_def)
  have 2: "cancel s \<noteq> None \<longrightarrow>
            status (run sched' s) \<noteq> Panicked \<and> cancel (run sched' s) \<noteq> None"
  proof
    assume c: "cancel s \<noteq> None"
    with 1 have "status s \<noteq> Panicked" by auto
    from no_panic_run[OF i c this] show
      "status (run sched' s) \<noteq> Panicked \<and> cancel (run sched' s) \<noteq> None" .
  qed
  from 1 2 show ?thesis by blast
qed

theorem x1_the_only_panic_witness:
  "status (run [A_Signal, A_Handler, A_Handler] (NewRerun env0 ''make'')) = Panicked
   \<and> h_pc (run [A_Signal, A_Handler, A_Handler] (NewRerun env0 ''make'')) = H_Stop_wait
   \<and> cancel (run [A_Signal, A_Handler, A_Handler] (NewRerun env0 ''make'')) = None
   \<and> cancel (run [A_Main] (NewRerun env0 ''make'')) \<noteq> None
   \<and> status (run [A_Signal, A_Handler, A_Handler] (run [A_Main] (NewRerun env0 ''make'')))
        \<noteq> Panicked"
proof -
  have 1: "status (run [A_Signal, A_Handler, A_Handler] (NewRerun env0 ''make'')) = Panicked"
    and 2: "cancel (run [A_Main] (NewRerun env0 ''make'')) \<noteq> None"
    and 3: "status (NewRerun env0 ''make'') = Running"
    by (simp_all add: exec_defs env0_def tree0_def)
  from x1_the_only_panic[OF refl 3, of "[A_Signal, A_Handler, A_Handler]"] 1
    x1_the_only_panic[OF refl 3, of "[A_Main]" "[A_Signal, A_Handler, A_Handler]"] 2
  show ?thesis by simp
qed

text \<open>
  X2. Cancelling a context that is already cancelled is a no-op: when the
  context of \<open>r.cancel\<close> is done, the first half of \<open>Stop\<close> changes
  nothing but the log.
\<close>

theorem x2_second_cancel_is_a_no_op:
  assumes "cancel s = Some c" and "c \<in> ctx_done s"
  shows "Stop_cancel t s = say t WaitingWaitgroup (say t CalledStop s)
       \<and> ctx_done (Stop_cancel t (Stop_cancel t s)) = ctx_done (Stop_cancel t s)
       \<and> status (Stop_cancel t s) = status s"
  using assms by (simp add: Stop_cancel_def say_def insert_absorb)

theorem x2_second_cancel_is_a_no_op_witness:
  "cancel (run sched_stop (NewRerun env0 ''make'')) = Some 0
   \<and> 0 \<in> ctx_done (run sched_stop (NewRerun env0 ''make''))
   \<and> ctx_done (Stop_cancel T_signal (run sched_stop (NewRerun env0 ''make''))) = {0}
   \<and> status (Stop_cancel T_signal (run sched_stop (NewRerun env0 ''make''))) = Running"
proof -
  have c: "cancel (run sched_stop (NewRerun env0 ''make'')) = Some 0"
    and d: "0 \<in> ctx_done (run sched_stop (NewRerun env0 ''make''))"
    and e: "ctx_done (run sched_stop (NewRerun env0 ''make'')) = {0}"
    and r: "status (run sched_stop (NewRerun env0 ''make'')) = Running"
    by (simp_all add: sched_stop_def exec_defs env0_def tree0_def ev0_def)
  from x2_second_cancel_is_a_no_op[OF c d, of T_signal] c d e r show ?thesis
    by (simp add: say_def)
qed

end
